theory Spec2Isabelle
  imports Main "HOL-Library.Word"
begin

section \<open>Strings and the message protocol\<close>

text \<open>
  A JavaScript string is a sequence of 16-bit code units; file contents are bytes.
  String literals of the source are written with \<open>js\<close>, which maps each ASCII
  character to its code unit.
\<close>

type_synonym code_unit = "16 word"
type_synonym jsstring = "code_unit list"
type_synonym byte = "8 word"

definition js :: "string \<Rightarrow> jsstring" where
  "js s = map (\<lambda>c. of_nat (of_char c)) s"

text \<open>
  \<open>OPFSRequest\<close> (both source files declare the same union): the envelope as it
  travels, with the discriminator \<open>type\<close> kept as the string it is, so that an
  envelope whose discriminator is none of the six can be written down. The fields
  \<open>fileName\<close> and \<open>content\<close> are read only by the variants that carry them.
\<close>

record request =
  correlationId :: jsstring
  rtype :: jsstring
  fileName :: jsstring
  content :: jsstring

text \<open>The payload \<open>data\<close> of a \<open>SuccessResponse\<close>: \<open>undefined\<close>, a string or a string array.\<close>

datatype payload = Undefined | Str jsstring | StrArray "jsstring list"

text \<open>\<open>OPFSResponse\<close>: \<open>Success\<close> is \<open>ok: true\<close> with \<open>data\<close>, \<open>Failure\<close> is \<open>ok: false\<close> with \<open>error\<close>.\<close>

datatype response = Success jsstring payload | Failure jsstring jsstring

fun response_id :: "response \<Rightarrow> jsstring" where
  "response_id (Success c d) = c"
| "response_id (Failure c e) = c"

fun ok :: "response \<Rightarrow> bool" where
  "ok (Success c d) = True"
| "ok (Failure c e) = False"

section \<open>The Channel Bridge (OPFS.ts)\<close>

text \<open>
  The module state is the singleton slot \<open>worker\<close> and the registry \<open>pending\<close>.
  Worker objects and promises live in two heaps addressed by index: a \<open>Worker\<close> object
  records which of its two listeners are set, a promise is pending or settled. The
  resolver pair stored in the registry is identified with the promise it settles.
  \<open>trace\<close> lists the effects of the module in the order the code performs them.
\<close>

record worker_obj =
  onmessage_set :: bool
  onerror_set :: bool

datatype promise = Pending | Fulfilled payload | Rejected jsstring

datatype effect =
    NewWorker nat
  | PendingSet jsstring nat
  | PendingDelete jsstring
  | PostMessage nat request
  | Resolve nat payload
  | Reject nat jsstring
  | ConsoleError jsstring

record bridge =
  worker :: "nat option"
  workers :: "worker_obj list"
  pending :: "jsstring \<rightharpoonup> nat"
  promises :: "promise list"
  trace :: "effect list"

definition init_bridge :: bridge where
  "init_bridge = \<lparr>worker = None, workers = [], pending = Map.empty, promises = [], trace = []\<rparr>"

definition emit :: "effect \<Rightarrow> bridge \<Rightarrow> bridge" where
  "emit e s = s\<lparr>trace := trace s @ [e]\<rparr>"

text \<open>\<open>worker.onerror\<close> of \<open>getWorker\<close>: logs, then clears the slot.\<close>

definition worker_onerror :: "jsstring \<Rightarrow> bridge \<Rightarrow> bridge" where
  "worker_onerror message s =
     (emit (ConsoleError (js ''[OPFS Worker] Uncaught error: '' @ message)) s)\<lparr>worker := None\<rparr>"

text \<open>Settling a promise has an effect only while it is pending.\<close>

definition settle :: "nat \<Rightarrow> promise \<Rightarrow> bridge \<Rightarrow> bridge" where
  "settle p v s =
     (if p < length (promises s) \<and> promises s ! p = Pending
      then s\<lparr>promises := (promises s)[p := v]\<rparr> else s)"

definition resolve :: "nat \<Rightarrow> payload \<Rightarrow> bridge \<Rightarrow> bridge" where
  "resolve p d s = settle p (Fulfilled d) (emit (Resolve p d) s)"

definition reject :: "nat \<Rightarrow> jsstring \<Rightarrow> bridge \<Rightarrow> bridge" where
  "reject p e s = settle p (Rejected e) (emit (Reject p e) s)"

text \<open>The handler that \<open>attachResponseListener\<close> installs as \<open>w.onmessage\<close>.\<close>

definition response_listener :: "response \<Rightarrow> bridge \<Rightarrow> bridge" where
  "response_listener r s =
     (case pending s (response_id r) of
        None \<Rightarrow> s
      | Some resolvers \<Rightarrow>
          (let s1 = emit (PendingDelete (response_id r))
                      (s\<lparr>pending := (pending s)(response_id r := None)\<rparr>)
           in case r of
                Success c d \<Rightarrow> resolve resolvers d s1
              | Failure c e \<Rightarrow> reject resolvers e s1))"

definition attachResponseListener :: "nat \<Rightarrow> bridge \<Rightarrow> bridge" where
  "attachResponseListener w s =
     s\<lparr>workers := (workers s)[w := (workers s ! w)\<lparr>onmessage_set := True\<rparr>]\<rparr>"

definition new_Worker :: "bridge \<Rightarrow> nat \<times> bridge" where
  "new_Worker s =
     (length (workers s),
      emit (NewWorker (length (workers s)))
        (s\<lparr>workers := workers s @ [\<lparr>onmessage_set = False, onerror_set = False\<rparr>]\<rparr>))"

definition set_onerror :: "nat \<Rightarrow> bridge \<Rightarrow> bridge" where
  "set_onerror w s = s\<lparr>workers := (workers s)[w := (workers s ! w)\<lparr>onerror_set := True\<rparr>]\<rparr>"

definition getWorker :: "bridge \<Rightarrow> nat \<times> bridge" where
  "getWorker s =
     (case worker s of
        Some w \<Rightarrow> (w, s)
      | None \<Rightarrow>
          (let (w, s1) = new_Worker s;
               s2 = s1\<lparr>worker := Some w\<rparr>;
               s3 = set_onerror w s2;
               s4 = attachResponseListener w s3
           in (w, s4)))"

definition new_Promise :: "bridge \<Rightarrow> nat \<times> bridge" where
  "new_Promise s = (length (promises s), s\<lparr>promises := promises s @ [Pending]\<rparr>)"

definition pending_set :: "jsstring \<Rightarrow> nat \<Rightarrow> bridge \<Rightarrow> bridge" where
  "pending_set c p s = emit (PendingSet c p) (s\<lparr>pending := (pending s)(c \<mapsto> p)\<rparr>)"

definition postMessage :: "nat \<Rightarrow> request \<Rightarrow> bridge \<Rightarrow> bridge" where
  "postMessage w req s = emit (PostMessage w req) s"

text \<open>\<open>send\<close>: the promise executor runs at once, so the body is one sequence.\<close>

definition send :: "request \<Rightarrow> bridge \<Rightarrow> nat \<times> bridge" where
  "send req s =
     (let (w, s1) = getWorker s;
          (p, s2) = new_Promise s1;
          s3 = pending_set (correlationId req) p s2;
          s4 = postMessage w req s3
      in (p, s4))"

text \<open>
  The six procedures of \<open>OPFSFileSystem\<close>. The value that \<open>crypto.randomUUID()\<close>
  returns in the call is the argument \<open>uuid\<close>.
\<close>

datatype call =
    CallInit | CallList | CallCreate jsstring jsstring | CallRead jsstring
  | CallUpdate jsstring jsstring | CallDelete jsstring

fun make_request :: "call \<Rightarrow> jsstring \<Rightarrow> request" where
  "make_request CallInit uuid =
     \<lparr>correlationId = uuid, rtype = js ''init'', fileName = [], content = []\<rparr>"
| "make_request CallList uuid =
     \<lparr>correlationId = uuid, rtype = js ''list'', fileName = [], content = []\<rparr>"
| "make_request (CallCreate f c) uuid =
     \<lparr>correlationId = uuid, rtype = js ''create'', fileName = f, content = c\<rparr>"
| "make_request (CallRead f) uuid =
     \<lparr>correlationId = uuid, rtype = js ''read'', fileName = f, content = []\<rparr>"
| "make_request (CallUpdate f c) uuid =
     \<lparr>correlationId = uuid, rtype = js ''update'', fileName = f, content = c\<rparr>"
| "make_request (CallDelete f) uuid =
     \<lparr>correlationId = uuid, rtype = js ''delete'', fileName = f, content = []\<rparr>"

definition OPFSFileSystem :: "call \<Rightarrow> jsstring \<Rightarrow> bridge \<Rightarrow> nat \<times> bridge" where
  "OPFSFileSystem c uuid s = send (make_request c uuid) s"

text \<open>
  What reaches the bridge from outside: a call of one of the six procedures, a message
  event on a worker object, an error event on a worker object. An event on a worker
  object runs the listener set on that object, if any.
\<close>

datatype event = Call call jsstring | Message nat response | ErrorEvent nat jsstring

fun step :: "bridge \<Rightarrow> event \<Rightarrow> bridge" where
  "step s (Call c uuid) = snd (OPFSFileSystem c uuid s)"
| "step s (Message w r) =
     (if w < length (workers s) \<and> onmessage_set (workers s ! w)
      then response_listener r s else s)"
| "step s (ErrorEvent w m) =
     (if w < length (workers s) \<and> onerror_set (workers s ! w)
      then worker_onerror m s else s)"

definition run :: "bridge \<Rightarrow> event list \<Rightarrow> bridge" where
  "run s evs = foldl step s evs"

subsection \<open>Notions used to state the properties of the bridge\<close>

text \<open>What a Result Envelope turns a pending promise into, and the settling call it causes.\<close>

definition settled_with :: "response \<Rightarrow> promise" where
  "settled_with r = (case r of Success c d \<Rightarrow> Fulfilled d | Failure c e \<Rightarrow> Rejected e)"

definition settle_effect :: "nat \<Rightarrow> response \<Rightarrow> effect" where
  "settle_effect p r = (case r of Success c d \<Rightarrow> Resolve p d | Failure c e \<Rightarrow> Reject p e)"

text \<open>\<open>settles p e\<close>: the effect \<open>e\<close> is a call of a resolver of promise \<open>p\<close>.\<close>

fun settles :: "nat \<Rightarrow> effect \<Rightarrow> bool" where
  "settles p (Resolve q d) = (q = p)"
| "settles p (Reject q e) = (q = p)"
| "settles p _ = False"

text \<open>
  The invariant of the registry: a registered resolver pair belongs to a pending promise
  that was registered under that id and under no other, no promise has been the target
  of two settling calls, and every worker object has both listeners set.
\<close>

definition registry_ok :: "bridge \<Rightarrow> bool" where
  "registry_ok s \<longleftrightarrow>
     (\<forall>c p. pending s c = Some p \<longrightarrow>
        p < length (promises s) \<and> promises s ! p = Pending \<and> PendingSet c p \<in> set (trace s))
   \<and> (\<forall>c c' p. pending s c = Some p \<longrightarrow> pending s c' = Some p \<longrightarrow> c = c')
   \<and> (\<forall>c c' p. PendingSet c p \<in> set (trace s) \<longrightarrow> PendingSet c' p \<in> set (trace s) \<longrightarrow> c = c')
   \<and> (\<forall>c p. PendingSet c p \<in> set (trace s) \<longrightarrow> p < length (promises s))
   \<and> (\<forall>w. worker s = Some w \<longrightarrow> w < length (workers s))
   \<and> (\<forall>w < length (workers s). onmessage_set (workers s ! w) \<and> onerror_set (workers s ! w))
   \<and> (\<forall>p. (p < length (promises s) \<longrightarrow> promises s ! p = Pending \<longrightarrow> filter (settles p) (trace s) = [])
         \<and> (length (promises s) \<le> p \<longrightarrow> filter (settles p) (trace s) = [])
         \<and> length (filter (settles p) (trace s)) \<le> 1)"

text \<open>\<open>touches c e\<close>: the event \<open>e\<close> is a call or a Result Envelope bearing the id \<open>c\<close>.\<close>

fun touches :: "jsstring \<Rightarrow> event \<Rightarrow> bool" where
  "touches c (Call k uuid) = (uuid = c)"
| "touches c (Message w r) = (response_id r = c)"
| "touches c (ErrorEvent w m) = False"

text \<open>
  Replaying a trace: the keys of the registry after the effects of the trace, starting
  from the keys \<open>reg\<close>, and whether every \<open>postMessage\<close> of the trace happens at a
  point where the id of its envelope is a key of the registry.
\<close>

fun registry_after :: "jsstring set \<Rightarrow> effect list \<Rightarrow> jsstring set" where
  "registry_after reg [] = reg"
| "registry_after reg (PendingSet c p # es) = registry_after (insert c reg) es"
| "registry_after reg (PendingDelete c # es) = registry_after (reg - {c}) es"
| "registry_after reg (e # es) = registry_after reg es"

fun posts_registered :: "jsstring set \<Rightarrow> effect list \<Rightarrow> bool" where
  "posts_registered reg [] = True"
| "posts_registered reg (PendingSet c p # es) = posts_registered (insert c reg) es"
| "posts_registered reg (PendingDelete c # es) = posts_registered (reg - {c}) es"
| "posts_registered reg (PostMessage w req # es) =
     (correlationId req \<in> reg \<and> posts_registered reg es)"
| "posts_registered reg (e # es) = posts_registered reg es"

text \<open>The ids that \<open>crypto.randomUUID()\<close> returned to the calls of an event list, in order.\<close>

fun call_ids :: "event list \<Rightarrow> jsstring list" where
  "call_ids [] = []"
| "call_ids (Call k uuid # evs) = uuid # call_ids evs"
| "call_ids (e # evs) = call_ids evs"

text \<open>
  The envelopes in flight, by their ids: an envelope is in flight from the moment \<open>send\<close>
  posts it until a Result Envelope bearing its id has been handed to the response
  listener. \<open>track\<close> follows the bridge and this list through one event.
\<close>

definition track :: "bridge \<times> jsstring list \<Rightarrow> event \<Rightarrow> bridge \<times> jsstring list" where
  "track sf e =
     (step (fst sf) e,
      case e of
        Call k uuid \<Rightarrow> snd sf @ [uuid]
      | Message w r \<Rightarrow>
          if w < length (workers (fst sf)) \<and> onmessage_set (workers (fst sf) ! w)
          then remove1 (response_id r) (snd sf) else snd sf
      | ErrorEvent w m \<Rightarrow> snd sf)"

definition in_flight :: "event list \<Rightarrow> jsstring list" where
  "in_flight evs = snd (foldl track (init_bridge, []) evs)"

text \<open>The envelopes posted by a trace, in order.\<close>

fun posted :: "effect list \<Rightarrow> request list" where
  "posted [] = []"
| "posted (PostMessage w req # es) = req # posted es"
| "posted (e # es) = posted es"

text \<open>A batch of calls, each with the id it drew, issued one after the other.\<close>

definition issue :: "(call \<times> jsstring) list \<Rightarrow> event list" where
  "issue cs = map (\<lambda>(k, uuid). Call k uuid) cs"

section \<open>Drawing correlation ids\<close>

text \<open>
  \<open>crypto.randomUUID()\<close> is a generator of the platform: \<open>g n\<close> is the value its call
  number \<open>n\<close> returns, and the number of calls made so far is part of the state of the
  page.
\<close>

definition randomUUID :: "(nat \<Rightarrow> jsstring) \<Rightarrow> nat \<Rightarrow> jsstring \<times> nat" where
  "randomUUID g drawn = (g drawn, Suc drawn)"

text \<open>
  One of the six procedures of \<open>OPFSFileSystem\<close>, with the draw of its correlation id:
  the argument of \<open>send\<close> is evaluated first, which calls \<open>randomUUID\<close> once, then \<open>send\<close>
  runs. The result is the promise returned, the module state and the count of draws.
\<close>

definition call_procedure :: "(nat \<Rightarrow> jsstring) \<Rightarrow> call \<Rightarrow> bridge \<times> nat \<Rightarrow> nat \<times> bridge \<times> nat" where
  "call_procedure g k sn =
     (let (uuid, drawn) = randomUUID g (snd sn);
          (p, s) = OPFSFileSystem k uuid (fst sn)
      in (p, s, drawn))"

text \<open>
  What reaches the page: a call of one of the six procedures (which draws its own id), a
  message event on a worker object, an error event on a worker object.
\<close>

datatype input = Invoke call | Receive nat response | ErrorOn nat jsstring

fun advance :: "(nat \<Rightarrow> jsstring) \<Rightarrow> bridge \<times> nat \<Rightarrow> input \<Rightarrow> bridge \<times> nat" where
  "advance g sn (Invoke k) = snd (call_procedure g k sn)"
| "advance g sn (Receive w r) = (step (fst sn) (Message w r), snd sn)"
| "advance g sn (ErrorOn w m) = (step (fst sn) (ErrorEvent w m), snd sn)"

text \<open>The page after a sequence of inputs.\<close>

definition play :: "(nat \<Rightarrow> jsstring) \<Rightarrow> bridge \<times> nat \<Rightarrow> input list \<Rightarrow> bridge \<times> nat" where
  "play g sn ins = foldl (advance g) sn ins"

text \<open>
  The events of the bridge that a sequence of inputs amounts to when \<open>n\<close> ids have been
  drawn before it, and the number of calls in a sequence.
\<close>

fun events_of :: "(nat \<Rightarrow> jsstring) \<Rightarrow> nat \<Rightarrow> input list \<Rightarrow> event list" where
  "events_of g n [] = []"
| "events_of g n (Invoke k # ins) = Call k (g n) # events_of g (Suc n) ins"
| "events_of g n (Receive w r # ins) = Message w r # events_of g n ins"
| "events_of g n (ErrorOn w m # ins) = ErrorEvent w m # events_of g n ins"

fun invocations :: "input list \<Rightarrow> nat" where
  "invocations [] = 0"
| "invocations (Invoke k # ins) = Suc (invocations ins)"
| "invocations (i # ins) = invocations ins"

text \<open>The requests posted, each with the worker object it was posted to, in order.\<close>

fun sent :: "effect list \<Rightarrow> (nat \<times> request) list" where
  "sent [] = []"
| "sent (PostMessage w req # es) = (w, req) # sent es"
| "sent (e # es) = sent es"

text \<open>
  A concrete generator that never repeats: draw number \<open>n\<close> is the letter a written
  \<open>n + 1\<close> times.
\<close>

definition test_uuid :: "nat \<Rightarrow> jsstring" where
  "test_uuid n = replicate (Suc n) 0x61"

section \<open>Text encoding (the platform's \<open>TextEncoder\<close> and \<open>Blob.text\<close>)\<close>

text \<open>
  The worker stores \<open>new TextEncoder().encode(content)\<close> and reads back with
  \<open>file.text()\<close>. Both are fixed by the platform standards: a string argument is first
  converted to its scalar values (a surrogate pair is one scalar value, a surrogate on
  its own becomes U+FFFD), the scalar values are encoded in UTF-8; reading decodes
  UTF-8, dropping a leading byte order mark and replacing ill-formed input by U+FFFD,
  and yields the string of the decoded scalar values. Scalar values and the arithmetic
  on bytes are natural numbers here.
\<close>

definition is_lead :: "code_unit \<Rightarrow> bool" where
  "is_lead c \<longleftrightarrow> 0xD800 \<le> unat c \<and> unat c \<le> 0xDBFF"

definition is_trail :: "code_unit \<Rightarrow> bool" where
  "is_trail c \<longleftrightarrow> 0xDC00 \<le> unat c \<and> unat c \<le> 0xDFFF"

fun scalar_values :: "jsstring \<Rightarrow> nat list" where
  "scalar_values [] = []"
| "scalar_values [c] = (if is_lead c \<or> is_trail c then [0xFFFD] else [unat c])"
| "scalar_values (c # d # cs) =
     (if is_lead c then
        (if is_trail d
         then (0x10000 + (unat c - 0xD800) * 0x400 + (unat d - 0xDC00)) # scalar_values cs
         else 0xFFFD # scalar_values (d # cs))
      else if is_trail c then 0xFFFD # scalar_values (d # cs)
      else unat c # scalar_values (d # cs))"

definition code_units :: "nat \<Rightarrow> jsstring" where
  "code_units cp =
     (if cp < 0x10000 then [of_nat cp]
      else [of_nat (0xD800 + (cp - 0x10000) div 0x400),
            of_nat (0xDC00 + (cp - 0x10000) mod 0x400)])"

definition string_of_scalars :: "nat list \<Rightarrow> jsstring" where
  "string_of_scalars cps = concat (map code_units cps)"

text \<open>The conversion of a string argument declared \<open>USVString\<close>.\<close>

definition usv :: "jsstring \<Rightarrow> jsstring" where
  "usv s = string_of_scalars (scalar_values s)"

definition utf8_bytes :: "nat \<Rightarrow> nat list" where
  "utf8_bytes cp =
     (if cp < 0x80 then [cp]
      else if cp < 0x800 then [0xC0 + cp div 0x40, 0x80 + cp mod 0x40]
      else if cp < 0x10000 then
        [0xE0 + cp div 0x1000, 0x80 + (cp div 0x40) mod 0x40, 0x80 + cp mod 0x40]
      else
        [0xF0 + cp div 0x40000, 0x80 + (cp div 0x1000) mod 0x40,
         0x80 + (cp div 0x40) mod 0x40, 0x80 + cp mod 0x40])"

definition TextEncoder_encode :: "jsstring \<Rightarrow> byte list" where
  "TextEncoder_encode s = map of_nat (concat (map utf8_bytes (scalar_values s)))"

text \<open>
  The UTF-8 decoder of the Encoding Standard, with its state: the code point being
  assembled, the bytes seen and needed, and the bounds on the next byte. A byte outside
  the bounds ends the sequence with U+FFFD and is read again as a first byte.
\<close>

function utf8_decoder :: "nat \<Rightarrow> nat \<Rightarrow> nat \<Rightarrow> nat \<Rightarrow> nat \<Rightarrow> nat list \<Rightarrow> nat list" where
  "utf8_decoder cp seen needed lower upper [] = (if needed \<noteq> 0 then [0xFFFD] else [])"
| "utf8_decoder cp seen needed lower upper (b # bs) =
     (if needed = 0 then
        (if b \<le> 0x7F then b # utf8_decoder 0 0 0 0x80 0xBF bs
         else if 0xC2 \<le> b \<and> b \<le> 0xDF then utf8_decoder (b mod 0x20) 0 1 0x80 0xBF bs
         else if 0xE0 \<le> b \<and> b \<le> 0xEF then
           utf8_decoder (b mod 0x10) 0 2
             (if b = 0xE0 then 0xA0 else 0x80) (if b = 0xED then 0x9F else 0xBF) bs
         else if 0xF0 \<le> b \<and> b \<le> 0xF4 then
           utf8_decoder (b mod 8) 0 3
             (if b = 0xF0 then 0x90 else 0x80) (if b = 0xF4 then 0x8F else 0xBF) bs
         else 0xFFFD # utf8_decoder 0 0 0 0x80 0xBF bs)
      else if b < lower \<or> upper < b then 0xFFFD # utf8_decoder 0 0 0 0x80 0xBF (b # bs)
      else if Suc seen \<noteq> needed
        then utf8_decoder (cp * 0x40 + b mod 0x40) (Suc seen) needed 0x80 0xBF bs
      else (cp * 0x40 + b mod 0x40) # utf8_decoder 0 0 0 0x80 0xBF bs)"
  by pat_completeness auto
termination
  by (relation "measure (\<lambda>(cp, seen, needed, lower, upper, bs).
        2 * length bs + (if needed = 0 then 0 else 1))") auto

definition strip_bom :: "byte list \<Rightarrow> byte list" where
  "strip_bom bs = (if take 3 bs = [0xEF, 0xBB, 0xBF] then drop 3 bs else bs)"

text \<open>\<open>Blob.text()\<close>: the ``UTF-8 decode'' of the Encoding Standard.\<close>

definition utf8_decode :: "byte list \<Rightarrow> jsstring" where
  "utf8_decode bs = string_of_scalars (utf8_decoder 0 0 0 0x80 0xBF (map unat (strip_bom bs)))"

subsection \<open>Notions used to state the properties of the encoding\<close>

text \<open>A Unicode scalar value: a code point that is not a surrogate.\<close>

definition scalar :: "nat \<Rightarrow> bool" where
  "scalar cp \<longleftrightarrow> cp < 0x110000 \<and> \<not> (0xD800 \<le> cp \<and> cp \<le> 0xDFFF)"

text \<open>A string is well formed when every surrogate in it is half of a lead-trail pair.\<close>

fun well_formed :: "jsstring \<Rightarrow> bool" where
  "well_formed [] = True"
| "well_formed [c] = (\<not> is_lead c \<and> \<not> is_trail c)"
| "well_formed (c # d # cs) =
     (if is_lead c then is_trail d \<and> well_formed cs
      else \<not> is_trail c \<and> well_formed (d # cs))"

text \<open>The string without a leading U+FEFF.\<close>

definition without_bom :: "jsstring \<Rightarrow> jsstring" where
  "without_bom s = (case s of [] \<Rightarrow> [] | c # cs \<Rightarrow> if c = 0xFEFF then cs else s)"

section \<open>The isolated context (opfs.worker.ts)\<close>

subsection \<open>Thrown values and the storage backend\<close>

text \<open>
  What a \<open>catch\<close> can receive. \<open>Error m\<close> is \<open>new Error(m)\<close>, thrown by the worker's own
  code. \<open>PlatformError n m\<close> is an exception object raised by the platform: a
  \<open>DOMException\<close> of name \<open>n\<close>, a \<open>TypeError\<close> or a \<open>RangeError\<close>, with message \<open>m\<close>; it
  is an instance of \<open>Error\<close> too. \<open>NonError v\<close> is any other thrown value, given by its
  string form \<open>String(value)\<close>.
\<close>

datatype exception_name =
    TypeError | RangeError | NotFoundError | TypeMismatchError | NoModificationAllowedError
  | InvalidStateError | InvalidModificationError | QuotaExceededError | SecurityError
  | NotAllowedError | NotReadableError | UnknownError

datatype thrown = Error jsstring | PlatformError exception_name jsstring | NonError jsstring

text \<open>
  An entry of the root directory: a file with its bytes, or a directory (the flag says
  whether it has children). The calls the worker makes on the platform are recorded
  with their arguments.
\<close>

datatype entry = FileEntry "byte list" | DirectoryEntry bool

datatype backend_call =
    GetDirectory | Persist | Values
  | GetFileHandle jsstring bool
  | CreateSyncAccessHandle jsstring
  | Encode jsstring
  | Truncate jsstring nat
  | Write jsstring "byte list" nat
  | Flush jsstring
  | Close jsstring
  | GetFile jsstring
  | Text "byte list"
  | RemoveEntry jsstring

text \<open>
  The environment of the worker, fixed while an operation runs: whether
  \<open>navigator.storage?.getDirectory\<close> and \<open>navigator.storage.persist\<close> are there, what
  \<open>persist()\<close> resolves to, which platform calls fail for reasons outside the model
  (\<open>fault\<close>: an I/O error, a quota, a permission) and with which exception, the message
  text the platform gives to an exception, and \<open>String.prototype.localeCompare\<close>.
\<close>

record env =
  has_getDirectory :: bool
  has_persist :: bool
  persist_granted :: bool
  fault :: "backend_call \<Rightarrow> exception_name option"
  message_of :: "exception_name \<Rightarrow> jsstring"
  localeCompare :: "jsstring \<Rightarrow> jsstring \<Rightarrow> int"

text \<open>
  The state the worker acts on: the entries of the origin's root directory in the order
  the directory enumerates them, the files on which a synchronous access handle is open
  (each holds the exclusive lock of its file), the platform calls made so far and the
  Result Envelopes posted so far.
\<close>

record backend =
  entries :: "(jsstring \<times> entry) list"
  locked :: "jsstring set"
  calls :: "backend_call list"
  outbox :: "response list"

text \<open>
  What the platform decides: the values \<open>crypto.randomUUID()\<close> returns, whether the script
  of the worker object number \<open>w\<close> loads, and the storage environment of the workers.
\<close>

record host =
  uuid_of :: "nat \<Rightarrow> jsstring"
  script_loads :: "nat \<Rightarrow> bool"
  worker_env :: env

text \<open>
  The state of the whole: the module state of the page and its count of draws; the
  requests posted by the page are the \<open>PostMessage\<close> effects of its trace, and \<open>taken\<close>
  holds the positions of those a worker has handled; \<open>replies\<close> lists the Result Envelopes
  the workers have posted, each with the worker object it arrives on, and \<open>delivered\<close>
  holds the positions of those the page has received; \<open>fired\<close> holds the worker objects
  whose error event has occurred; \<open>store\<close> is the storage of the origin, which all workers
  share.
\<close>

record system =
  page :: bridge
  drawn :: nat
  taken :: "nat set"
  replies :: "(nat \<times> response) list"
  delivered :: "nat set"
  fired :: "nat set"
  store :: backend

text \<open>
  A computation returns a value or throws, and leaves a state in both cases. An
  operation of the worker runs from start to end on the state; interleavings of two
  operations at their \<open>await\<close> points are outside the model.
\<close>

type_synonym 'a action = "backend \<Rightarrow> (thrown + 'a) \<times> backend"

definition ret :: "'a \<Rightarrow> 'a action" where
  "ret x s = (Inr x, s)"

definition throw :: "thrown \<Rightarrow> 'a action" where
  "throw e s = (Inl e, s)"

definition and_then :: "'a action \<Rightarrow> ('a \<Rightarrow> 'b action) \<Rightarrow> 'b action" where
  "and_then m k s = (case m s of (Inl e, s1) \<Rightarrow> (Inl e, s1) | (Inr x, s1) \<Rightarrow> k x s1)"

text \<open>\<open>try { m } finally { fin }\<close>, and \<open>try { m } catch (err) { handler err }\<close>.\<close>

definition try_finally :: "'a action \<Rightarrow> unit action \<Rightarrow> 'a action" where
  "try_finally m fin s =
     (case m s of
        (r, s1) \<Rightarrow> (case fin s1 of (Inl e, s2) \<Rightarrow> (Inl e, s2) | (Inr u, s2) \<Rightarrow> (r, s2)))"

definition try_catch :: "'a action \<Rightarrow> (thrown \<Rightarrow> 'a action) \<Rightarrow> 'a action" where
  "try_catch m handler s =
     (case m s of (Inl e, s1) \<Rightarrow> handler e s1 | (Inr x, s1) \<Rightarrow> (Inr x, s1))"

definition platform_throw :: "env \<Rightarrow> exception_name \<Rightarrow> 'a action" where
  "platform_throw env n = throw (PlatformError n (message_of env n))"

text \<open>A platform call is recorded; it fails if the environment says so, else it runs.\<close>

definition invoke :: "env \<Rightarrow> backend_call \<Rightarrow> 'a action \<Rightarrow> 'a action" where
  "invoke env c body s =
     (let s1 = s\<lparr>calls := calls s @ [c]\<rparr>
      in case fault env c of Some n \<Rightarrow> platform_throw env n s1 | None \<Rightarrow> body s1)"

text \<open>
  The calls of the File System Standard that the worker uses. A file handle and a
  synchronous access handle are given by the name of their file in the root directory;
  names are converted as \<open>USVString\<close> arguments are. Calling \<open>getDirectory\<close> where it does
  not exist is a \<open>TypeError\<close>.
\<close>

definition getDirectory :: "env \<Rightarrow> unit action" where
  "getDirectory env =
     (if has_getDirectory env then invoke env GetDirectory (ret ())
      else platform_throw env TypeError)"

definition persist :: "env \<Rightarrow> bool action" where
  "persist env = invoke env Persist (ret (persist_granted env))"

definition dir_values :: "env \<Rightarrow> (jsstring \<times> entry) list action" where
  "dir_values env = invoke env Values (\<lambda>s. ret (entries s) s)"

definition valid_file_name :: "jsstring \<Rightarrow> bool" where
  "valid_file_name n \<longleftrightarrow> n \<noteq> [] \<and> n \<noteq> js ''.'' \<and> n \<noteq> js ''..'' \<and> 0x2F \<notin> set n"

definition getFileHandle :: "env \<Rightarrow> jsstring \<Rightarrow> bool \<Rightarrow> jsstring action" where
  "getFileHandle env name create =
     invoke env (GetFileHandle name create) (\<lambda>s.
       if \<not> valid_file_name (usv name) then platform_throw env TypeError s
       else case map_of (entries s) (usv name) of
              Some (FileEntry bs) \<Rightarrow> ret (usv name) s
            | Some (DirectoryEntry children) \<Rightarrow> platform_throw env TypeMismatchError s
            | None \<Rightarrow>
                if create
                then ret (usv name) (s\<lparr>entries := entries s @ [(usv name, FileEntry [])]\<rparr>)
                else platform_throw env NotFoundError s)"

definition createSyncAccessHandle :: "env \<Rightarrow> jsstring \<Rightarrow> jsstring action" where
  "createSyncAccessHandle env h =
     invoke env (CreateSyncAccessHandle h) (\<lambda>s.
       case map_of (entries s) h of
         Some (FileEntry bs) \<Rightarrow>
           if h \<in> locked s then platform_throw env NoModificationAllowedError s
           else ret h (s\<lparr>locked := insert h (locked s)\<rparr>)
       | Some (DirectoryEntry children) \<Rightarrow> platform_throw env NotFoundError s
       | None \<Rightarrow> platform_throw env NotFoundError s)"

definition set_file :: "jsstring \<Rightarrow> byte list \<Rightarrow> (jsstring \<times> entry) list \<Rightarrow> (jsstring \<times> entry) list" where
  "set_file h bs es = map (\<lambda>(n, e). if n = h then (n, FileEntry bs) else (n, e)) es"

definition truncate :: "env \<Rightarrow> jsstring \<Rightarrow> nat \<Rightarrow> unit action" where
  "truncate env h newSize =
     invoke env (Truncate h newSize) (\<lambda>s.
       if h \<notin> locked s then platform_throw env InvalidStateError s
       else case map_of (entries s) h of
              Some (FileEntry bs) \<Rightarrow>
                ret () (s\<lparr>entries :=
                  set_file h (take newSize bs @ replicate (newSize - length bs) 0) (entries s)\<rparr>)
            | Some (DirectoryEntry children) \<Rightarrow> platform_throw env InvalidStateError s
            | None \<Rightarrow> platform_throw env InvalidStateError s)"

definition write_at :: "env \<Rightarrow> jsstring \<Rightarrow> byte list \<Rightarrow> nat \<Rightarrow> nat action" where
  "write_at env h buffer at =
     invoke env (Write h buffer at) (\<lambda>s.
       if h \<notin> locked s then platform_throw env InvalidStateError s
       else case map_of (entries s) h of
              Some (FileEntry bs) \<Rightarrow>
                ret (length buffer) (s\<lparr>entries :=
                  set_file h (take at bs @ replicate (at - length bs) 0 @ buffer
                              @ drop (at + length buffer) bs) (entries s)\<rparr>)
            | Some (DirectoryEntry children) \<Rightarrow> platform_throw env InvalidStateError s
            | None \<Rightarrow> platform_throw env InvalidStateError s)"

definition flush :: "env \<Rightarrow> jsstring \<Rightarrow> unit action" where
  "flush env h =
     invoke env (Flush h) (\<lambda>s.
       if h \<notin> locked s then platform_throw env InvalidStateError s else ret () s)"

text \<open>\<open>close()\<close> does not throw; it releases the lock. (\<open>write_at\<close> is the handle's \<open>write\<close>.)\<close>

definition close :: "jsstring \<Rightarrow> unit action" where
  "close h s = ret () (s\<lparr>calls := calls s @ [Close h], locked := locked s - {h}\<rparr>)"

definition getFile :: "env \<Rightarrow> jsstring \<Rightarrow> byte list action" where
  "getFile env h =
     invoke env (GetFile h) (\<lambda>s.
       case map_of (entries s) h of
         Some (FileEntry bs) \<Rightarrow> ret bs s
       | Some (DirectoryEntry children) \<Rightarrow> platform_throw env NotFoundError s
       | None \<Rightarrow> platform_throw env NotFoundError s)"

definition file_text :: "env \<Rightarrow> byte list \<Rightarrow> jsstring action" where
  "file_text env bs = invoke env (Text bs) (ret (utf8_decode bs))"

definition removeEntry :: "env \<Rightarrow> jsstring \<Rightarrow> unit action" where
  "removeEntry env name =
     invoke env (RemoveEntry name) (\<lambda>s.
       if \<not> valid_file_name (usv name) then platform_throw env TypeError s
       else case map_of (entries s) (usv name) of
              None \<Rightarrow> platform_throw env NotFoundError s
            | Some (DirectoryEntry True) \<Rightarrow> platform_throw env InvalidModificationError s
            | Some e \<Rightarrow>
                if usv name \<in> locked s then platform_throw env NoModificationAllowedError s
                else ret () (s\<lparr>entries := filter (\<lambda>(n, e). n \<noteq> usv name) (entries s)\<rparr>))"

definition encode :: "env \<Rightarrow> jsstring \<Rightarrow> byte list action" where
  "encode env input = invoke env (Encode input) (ret (TextEncoder_encode input))"

subsection \<open>The Operation Executor\<close>

definition opfsInit :: "env \<Rightarrow> unit action" where
  "opfsInit env =
     (if \<not> has_getDirectory env
      then throw (Error (js ''OPFS is not supported in this browser.''))
      else and_then
             (if has_persist env then and_then (persist env) (\<lambda>granted. ret ()) else ret ())
             (\<lambda>u. and_then (getDirectory env) (\<lambda>root. ret ())))"

definition startsWith :: "jsstring \<Rightarrow> jsstring \<Rightarrow> bool" where
  "startsWith s p \<longleftrightarrow> take (length p) s = p"

fun is_file :: "entry \<Rightarrow> bool" where
  "is_file (FileEntry bs) = True"
| "is_file (DirectoryEntry children) = False"

text \<open>The \<open>for await\<close> loop of \<open>opfsList\<close>, with the array \<open>names\<close> it pushes to.\<close>

fun list_loop :: "(jsstring \<times> entry) list \<Rightarrow> jsstring list \<Rightarrow> jsstring list" where
  "list_loop [] names = names"
| "list_loop ((name, e) # es) names =
     (if is_file e \<and> \<not> startsWith name (js ''.'')
      then list_loop es (names @ [name]) else list_loop es names)"

text \<open>
  \<open>Array.prototype.sort\<close> with a comparator: a stable sort, which puts \<open>a\<close> before \<open>b\<close>
  when \<open>cmp a b \<le> 0\<close>. It is written as the insertion of each element, from the last.
\<close>

fun insert_by :: "('a \<Rightarrow> 'a \<Rightarrow> int) \<Rightarrow> 'a \<Rightarrow> 'a list \<Rightarrow> 'a list" where
  "insert_by cmp x [] = [x]"
| "insert_by cmp x (y # ys) = (if cmp x y \<le> 0 then x # y # ys else y # insert_by cmp x ys)"

definition Array_sort :: "('a \<Rightarrow> 'a \<Rightarrow> int) \<Rightarrow> 'a list \<Rightarrow> 'a list" where
  "Array_sort cmp xs = foldr (insert_by cmp) xs []"

definition opfsList :: "env \<Rightarrow> jsstring list action" where
  "opfsList env =
     and_then (getDirectory env) (\<lambda>root.
     and_then (dir_values env) (\<lambda>es.
     ret (Array_sort (\<lambda>a b. localeCompare env a b) (list_loop es []))))"

definition opfsCreate :: "env \<Rightarrow> jsstring \<Rightarrow> jsstring \<Rightarrow> jsstring action" where
  "opfsCreate env file_name contents =
     and_then (getDirectory env) (\<lambda>root.
     and_then (getFileHandle env file_name True) (\<lambda>fileHandle.
     and_then (createSyncAccessHandle env fileHandle) (\<lambda>syncHandle.
     and_then
       (try_finally
          (and_then (encode env contents) (\<lambda>encoded.
           and_then (truncate env syncHandle 0) (\<lambda>u.
           and_then (write_at env syncHandle encoded 0) (\<lambda>n.
           flush env syncHandle))))
          (close syncHandle))
       (\<lambda>u. ret file_name))))"

definition opfsRead :: "env \<Rightarrow> jsstring \<Rightarrow> jsstring action" where
  "opfsRead env file_name =
     and_then (getDirectory env) (\<lambda>root.
     and_then (getFileHandle env file_name False) (\<lambda>fileHandle.
     and_then (getFile env fileHandle) (\<lambda>file.
     file_text env file)))"

definition opfsUpdate :: "env \<Rightarrow> jsstring \<Rightarrow> jsstring \<Rightarrow> unit action" where
  "opfsUpdate env file_name contents =
     and_then (getDirectory env) (\<lambda>root.
     and_then (getFileHandle env file_name False) (\<lambda>fileHandle.
     and_then (createSyncAccessHandle env fileHandle) (\<lambda>syncHandle.
     try_finally
       (and_then (encode env contents) (\<lambda>encoded.
        and_then (truncate env syncHandle 0) (\<lambda>u.
        and_then (write_at env syncHandle encoded 0) (\<lambda>n.
        flush env syncHandle))))
       (close syncHandle))))"

definition opfsDelete :: "env \<Rightarrow> jsstring \<Rightarrow> unit action" where
  "opfsDelete env file_name =
     and_then (getDirectory env) (\<lambda>root. removeEntry env file_name)"

subsection \<open>The Isolated Context Dispatcher\<close>

definition reply :: "jsstring \<Rightarrow> payload \<Rightarrow> unit action" where
  "reply cid d s = ret () (s\<lparr>outbox := outbox s @ [Success cid d]\<rparr>)"

text \<open>\<open>err instanceof Error ? err.message : String(err)\<close>\<close>

fun error_message :: "thrown \<Rightarrow> jsstring" where
  "error_message (Error m) = m"
| "error_message (PlatformError n m) = m"
| "error_message (NonError v) = v"

definition replyError :: "jsstring \<Rightarrow> thrown \<Rightarrow> unit action" where
  "replyError cid err s = ret () (s\<lparr>outbox := outbox s @ [Failure cid (error_message err)]\<rparr>)"

text \<open>\<open>self.onmessage\<close>: the \<open>switch\<close> on \<open>type\<close> inside \<open>try\<close>, and the \<open>catch\<close>.\<close>

definition onmessage :: "env \<Rightarrow> request \<Rightarrow> unit action" where
  "onmessage env data =
     try_catch
       (if rtype data = js ''init'' then
          and_then (opfsInit env) (\<lambda>u. reply (correlationId data) Undefined)
        else if rtype data = js ''list'' then
          and_then (opfsList env) (\<lambda>names. reply (correlationId data) (StrArray names))
        else if rtype data = js ''create'' then
          and_then (opfsCreate env (fileName data) (content data))
            (\<lambda>name. reply (correlationId data) (Str name))
        else if rtype data = js ''read'' then
          and_then (opfsRead env (fileName data)) (\<lambda>text. reply (correlationId data) (Str text))
        else if rtype data = js ''update'' then
          and_then (opfsUpdate env (fileName data) (content data))
            (\<lambda>u. reply (correlationId data) Undefined)
        else if rtype data = js ''delete'' then
          and_then (opfsDelete env (fileName data)) (\<lambda>u. reply (correlationId data) Undefined)
        else replyError (correlationId data)
               (NonError (js ''Unknown message type: '' @ rtype data)))
       (\<lambda>err. replyError (correlationId data) err)"

subsection \<open>Notions used to state the properties of the worker\<close>

text \<open>
  A comparison of strings by their code units, one consistent comparator; it stands for
  \<open>localeCompare\<close> in the concrete environment below.
\<close>

fun compare_units :: "jsstring \<Rightarrow> jsstring \<Rightarrow> int" where
  "compare_units [] [] = 0"
| "compare_units [] (b # bs) = - 1"
| "compare_units (a # as) [] = 1"
| "compare_units (a # as) (b # bs) =
     (if a < b then - 1 else if b < a then 1 else compare_units as bs)"

text \<open>The state after one more Result Envelope has been posted.\<close>

definition post :: "response \<Rightarrow> backend \<Rightarrow> backend" where
  "post r s = s\<lparr>outbox := outbox s @ [r]\<rparr>"

text \<open>
  The Result Envelope for the outcome of an executor call: success with the payload made
  from the value returned, or failure with the message of what was thrown.
\<close>

definition envelope :: "jsstring \<Rightarrow> ('a \<Rightarrow> payload) \<Rightarrow> thrown + 'a \<Rightarrow> response" where
  "envelope cid f res = (case res of Inl e \<Rightarrow> Failure cid (error_message e) | Inr x \<Rightarrow> Success cid (f x))"

text \<open>The six recognised discriminators.\<close>

definition known_types :: "jsstring list" where
  "known_types = [js ''init'', js ''list'', js ''create'', js ''read'', js ''update'', js ''delete'']"

text \<open>A computation that posts nothing.\<close>

definition keeps_outbox :: "'a action \<Rightarrow> bool" where
  "keeps_outbox m \<longleftrightarrow> (\<forall>s. outbox (snd (m s)) = outbox s)"

text \<open>
  A concrete environment and the empty store, for evaluating the model: the backend is
  present, \<open>persist\<close> is not, and no platform call fails by itself.
\<close>

definition test_env :: env where
  "test_env = \<lparr>has_getDirectory = True, has_persist = False, persist_granted = False,
     fault = (\<lambda>c. None), message_of = (\<lambda>n. js ''failed''), localeCompare = compare_units\<rparr>"

definition empty_backend :: backend where
  "empty_backend = \<lparr>entries = [], locked = {}, calls = [], outbox = []\<rparr>"

text \<open>The exception for a missing entry, and the exception \<open>opfsInit\<close> throws itself.\<close>

definition not_found :: "env \<Rightarrow> thrown" where
  "not_found env = PlatformError NotFoundError (message_of env NotFoundError)"

definition unsupported :: thrown where
  "unsupported = Error (js ''OPFS is not supported in this browser.'')"

text \<open>The state after the platform calls \<open>cs\<close> have been recorded.\<close>

definition called :: "backend_call list \<Rightarrow> backend \<Rightarrow> backend" where
  "called cs s = s\<lparr>calls := calls s @ cs\<rparr>"

text \<open>
  The platform calls of the write path once the handle is there, as the specification
  lists them: encode the content, truncate to length 0, write the encoded content at
  offset 0, flush.
\<close>

definition write_path :: "jsstring \<Rightarrow> jsstring \<Rightarrow> backend_call list" where
  "write_path h c = [Encode c, Truncate h 0, Write h (TextEncoder_encode c) 0, Flush h]"

text \<open>
  Of a list of calls made one after the other, the calls that are attempted (all up to
  and including the first that fails), and the exception of the first that fails.
\<close>

fun upto_fault :: "env \<Rightarrow> backend_call list \<Rightarrow> backend_call list" where
  "upto_fault env [] = []"
| "upto_fault env (c # cs) = c # (if fault env c = None then upto_fault env cs else [])"

fun first_fault :: "env \<Rightarrow> backend_call list \<Rightarrow> exception_name option" where
  "first_fault env [] = None"
| "first_fault env (c # cs) =
     (case fault env c of Some n \<Rightarrow> Some n | None \<Rightarrow> first_fault env cs)"

text \<open>The \<open>try\<close>/\<open>finally\<close> block that \<open>opfsCreate\<close> and \<open>opfsUpdate\<close> both have.\<close>

definition write_block :: "env \<Rightarrow> jsstring \<Rightarrow> jsstring \<Rightarrow> unit action" where
  "write_block env h c =
     try_finally
       (and_then (encode env c) (\<lambda>encoded.
        and_then (truncate env h 0) (\<lambda>u.
        and_then (write_at env h encoded 0) (\<lambda>n.
        flush env h))))
       (close h)"

text \<open>The steps of both functions before that block, up to the synchronous access handle.\<close>

definition acquire :: "env \<Rightarrow> jsstring \<Rightarrow> bool \<Rightarrow> jsstring action" where
  "acquire env f create =
     and_then (getDirectory env) (\<lambda>root.
     and_then (getFileHandle env f create) (\<lambda>fileHandle.
     createSyncAccessHandle env fileHandle))"

text \<open>
  The common shape of the two functions: \<open>opfsCreate\<close> acquires with \<open>create: true\<close> and
  returns the file name, \<open>opfsUpdate\<close> acquires with \<open>create: false\<close> and returns nothing.
\<close>

definition overwrite :: "env \<Rightarrow> jsstring \<Rightarrow> bool \<Rightarrow> jsstring \<Rightarrow> 'a \<Rightarrow> 'a action" where
  "overwrite env f create c v =
     and_then (acquire env f create) (\<lambda>h. and_then (write_block env h c) (\<lambda>u. ret v))"

text \<open>A concrete environment in which flushing the file \<open>a\<close> fails.\<close>

definition flush_fails :: env where
  "flush_fails = test_env\<lparr>fault := (\<lambda>c. if c = Flush (js ''a'') then Some QuotaExceededError else None)\<rparr>"

text \<open>
  The names that \<open>opfsList\<close> keeps, in the order of enumeration: those of the file
  entries whose name does not start with a dot.
\<close>

definition visible :: "(jsstring \<times> entry) list \<Rightarrow> jsstring list" where
  "visible es = map fst (filter (\<lambda>(n, e). is_file e \<and> \<not> startsWith n (js ''.'')) es)"

text \<open>
  A consistent comparator, as ECMAScript requires of \<open>localeCompare\<close>: any two strings
  are comparable, and the order is transitive.
\<close>

definition consistent :: "('a \<Rightarrow> 'a \<Rightarrow> int) \<Rightarrow> bool" where
  "consistent cmp \<longleftrightarrow>
     (\<forall>a b. cmp a b \<le> 0 \<or> cmp b a \<le> 0)
     \<and> (\<forall>a b c. cmp a b \<le> 0 \<and> cmp b c \<le> 0 \<longrightarrow> cmp a c \<le> 0)"

section \<open>The page and its workers as one system\<close>

text \<open>
  The records \<open>host\<close> and \<open>system\<close>, declared with the storage backend, hold what the
  platform decides and the state of the page and its workers together.
\<close>

definition init_system :: "backend \<Rightarrow> system" where
  "init_system st =
     \<lparr>page = init_bridge, drawn = 0, taken = {}, replies = [], delivered = {}, fired = {},
      store = st\<rparr>"

text \<open>
  What can happen next: the application calls a procedure; a worker handles a request
  posted to it; the page receives a Result Envelope; the script of a worker fails to
  load, with the message of the error event.
\<close>

datatype occurrence = UserCall call | WorkerTakes nat | PageGets nat | LoadFails nat jsstring

text \<open>A call of a procedure of \<open>OPFSFileSystem\<close>: it draws its id and runs \<open>send\<close>.\<close>

definition user_call :: "host \<Rightarrow> call \<Rightarrow> system \<Rightarrow> system" where
  "user_call h k S =
     (let (p, b, n) = call_procedure (uuid_of h) k (page S, drawn S)
      in S\<lparr>page := b, drawn := n\<rparr>)"

text \<open>
  The worker whose script has loaded runs \<open>self.onmessage\<close> on a request posted to it
  and not handled before; what the handler posts goes to the page, as messages of that
  worker object. A worker whose script did not load runs nothing.
\<close>

definition worker_takes :: "host \<Rightarrow> nat \<Rightarrow> system \<Rightarrow> system" where
  "worker_takes h i S =
     (if i < length (sent (trace (page S))) \<and> i \<notin> taken S
         \<and> script_loads h (fst (sent (trace (page S)) ! i))
      then let (w, req) = sent (trace (page S)) ! i;
               st = snd (onmessage (worker_env h) req ((store S)\<lparr>outbox := []\<rparr>))
           in S\<lparr>taken := insert i (taken S),
                replies := replies S @ map (Pair w) (outbox st),
                store := st\<rparr>
      else S)"

text \<open>
  The page receives a Result Envelope not received before: a message event on the worker
  object it comes from.
\<close>

definition page_gets :: "nat \<Rightarrow> system \<Rightarrow> system" where
  "page_gets j S =
     (if j < length (replies S) \<and> j \<notin> delivered S
      then let (w, r) = replies S ! j
           in S\<lparr>page := step (page S) (Message w r), delivered := insert j (delivered S)\<rparr>
      else S)"

text \<open>
  The error event of a worker object. \<open>self.onmessage\<close> in opfs.worker.ts is an \<open>async\<close>
  function whose body is one \<open>try\<close> with a \<open>catch\<close>, so what is thrown while a request is
  handled ends in the \<open>catch\<close> or rejects the promise the handler returns, and is not an
  uncaught error of the worker; the top level of the script only declares functions and
  assigns the handler. The error event of a worker object therefore occurs when its
  script fails to load, once, and such a worker never runs the handler.
\<close>

definition load_fails :: "host \<Rightarrow> nat \<Rightarrow> jsstring \<Rightarrow> system \<Rightarrow> system" where
  "load_fails h w m S =
     (if w < length (workers (page S)) \<and> \<not> script_loads h w \<and> w \<notin> fired S
      then S\<lparr>page := step (page S) (ErrorEvent w m), fired := insert w (fired S)\<rparr>
      else S)"

fun sys_step :: "host \<Rightarrow> system \<Rightarrow> occurrence \<Rightarrow> system" where
  "sys_step h S (UserCall k) = user_call h k S"
| "sys_step h S (WorkerTakes i) = worker_takes h i S"
| "sys_step h S (PageGets j) = page_gets j S"
| "sys_step h S (LoadFails w m) = load_fails h w m S"

text \<open>The system after a sequence of occurrences, in any order the platform allows.\<close>

definition sys_run :: "host \<Rightarrow> system \<Rightarrow> occurrence list \<Rightarrow> system" where
  "sys_run h S xs = foldl (sys_step h) S xs"

text \<open>
  The invariant of the system: the registry invariant of the page; every Result Envelope
  comes from a worker whose script loaded and bears the id of a request posted to that
  worker; a worker object whose error event occurred did not load; every worker object
  other than the singleton has had its error event; requests are posted to existing
  worker objects; what was handled or received exists.
\<close>

definition sys_ok :: "host \<Rightarrow> system \<Rightarrow> bool" where
  "sys_ok h S \<longleftrightarrow>
     registry_ok (page S)
   \<and> (\<forall>(w, r) \<in> set (replies S). script_loads h w
        \<and> (\<exists>req. (w, req) \<in> set (sent (trace (page S))) \<and> correlationId req = response_id r))
   \<and> (\<forall>w \<in> fired S. \<not> script_loads h w)
   \<and> (\<forall>w < length (workers (page S)). worker (page S) = Some w \<or> w \<in> fired S)
   \<and> (\<forall>(w, req) \<in> set (sent (trace (page S))). w < length (workers (page S)))
   \<and> (\<forall>i \<in> taken S. i < length (sent (trace (page S))))
   \<and> (\<forall>j \<in> delivered S. j < length (replies S))"

text \<open>
  Promise \<open>p\<close> is pending, and no request bearing an id under which the registry holds
  its resolvers was posted to a worker whose script loaded.
\<close>

definition abandoned :: "host \<Rightarrow> system \<Rightarrow> nat \<Rightarrow> bool" where
  "abandoned h S p \<longleftrightarrow>
     p < length (promises (page S)) \<and> promises (page S) ! p = Pending
   \<and> (\<forall>c. pending (page S) c = Some p \<longrightarrow>
        (\<forall>(w, req) \<in> set (sent (trace (page S))). correlationId req = c \<longrightarrow> \<not> script_loads h w))"

text \<open>
  A concrete platform: the script of the first worker object fails to load, that of every
  later one loads.
\<close>

definition test_host :: host where
  "test_host = \<lparr>uuid_of = test_uuid, script_loads = (\<lambda>w. 0 < w), worker_env = test_env\<rparr>"

section \<open>Properties of the Channel Bridge\<close>

subsection \<open>What each operation does to the state\<close>

lemma worker_onerror_fields:
  "worker (worker_onerror m s) = None"
  "workers (worker_onerror m s) = workers s"
  "pending (worker_onerror m s) = pending s"
  "promises (worker_onerror m s) = promises s"
  "trace (worker_onerror m s) = trace s @ [ConsoleError (js ''[OPFS Worker] Uncaught error: '' @ m)]"
  by (simp_all add: worker_onerror_def emit_def)


lemma emit_fields [simp]:
  "worker (emit e s) = worker s" "workers (emit e s) = workers s"
  "pending (emit e s) = pending s" "promises (emit e s) = promises s"
  "trace (emit e s) = trace s @ [e]"
  by (simp_all add: emit_def)

lemma settle_fields [simp]:
  "worker (settle p v s) = worker s" "workers (settle p v s) = workers s"
  "pending (settle p v s) = pending s" "trace (settle p v s) = trace s"
  "length (promises (settle p v s)) = length (promises s)"
  by (simp_all add: settle_def)

lemma settle_promises:
  "promises (settle p v s) ! q =
     (if q = p \<and> p < length (promises s) \<and> promises s ! p = Pending then v else promises s ! q)"
  by (simp add: settle_def)

lemma response_listener_absent:
  "pending s (response_id r) = None \<Longrightarrow> response_listener r s = s"
  by (simp add: response_listener_def)

lemma response_listener_present:
  assumes "pending s (response_id r) = Some p"
  shows "worker (response_listener r s) = worker s"
    and "workers (response_listener r s) = workers s"
    and "pending (response_listener r s) = (pending s)(response_id r := None)"
    and "trace (response_listener r s) = trace s @ [PendingDelete (response_id r), settle_effect p r]"
    and "length (promises (response_listener r s)) = length (promises s)"
    and "promises (response_listener r s) ! q =
          (if q = p \<and> p < length (promises s) \<and> promises s ! p = Pending
           then settled_with r else promises s ! q)"
  using assms
  by (cases r; simp add: response_listener_def resolve_def reject_def settle_effect_def
        settled_with_def settle_promises Let_def)+

lemma getWorker_fields:
  "pending (snd (getWorker s)) = pending s"
  "promises (snd (getWorker s)) = promises s"
  "worker (snd (getWorker s)) = Some (fst (getWorker s))"
  "trace (snd (getWorker s)) = trace s @ (case worker s of None \<Rightarrow> [NewWorker (length (workers s))] | Some w \<Rightarrow> [])"
  "fst (getWorker s) = (case worker s of None \<Rightarrow> length (workers s) | Some w \<Rightarrow> w)"
  "workers (snd (getWorker s)) = (case worker s of None \<Rightarrow> workers s @ [\<lparr>onmessage_set = True, onerror_set = True\<rparr>] | Some w \<Rightarrow> workers s)"
  by (simp_all add: getWorker_def new_Worker_def set_onerror_def attachResponseListener_def
      Let_def split: option.splits)

lemma send_fields:
  "fst (send req s) = length (promises s)"
  "pending (snd (send req s)) = (pending s)(correlationId req \<mapsto> length (promises s))"
  "promises (snd (send req s)) = promises s @ [Pending]"
  "worker (snd (send req s)) = Some (fst (getWorker s))"
  "workers (snd (send req s)) = workers (snd (getWorker s))"
  "trace (snd (send req s)) = trace (snd (getWorker s)) @
      [PendingSet (correlationId req) (length (promises s)), PostMessage (fst (getWorker s)) req]"
  by (simp_all add: send_def new_Promise_def pending_set_def postMessage_def Let_def
      split_beta getWorker_fields)

subsection \<open>The registry invariant\<close>

lemma settles_settle_effect [simp]: "settles q (settle_effect p r) = (p = q)"
  by (cases r) (simp_all add: settle_effect_def)

lemma registry_ok_init: "registry_ok init_bridge"
  by (simp add: registry_ok_def init_bridge_def)

lemma registry_ok_onerror: "registry_ok s \<Longrightarrow> registry_ok (worker_onerror m s)"
  unfolding registry_ok_def by (simp add: worker_onerror_fields)

lemma registry_ok_send:
  assumes "registry_ok s"
  shows "registry_ok (snd (send req s))"
proof -
  let ?n = "length (promises s)"
  have fresh: "\<And>c. pending s c \<noteq> Some ?n" "\<And>c. PendingSet c ?n \<notin> set (trace s)"
    using assms unfolding registry_ok_def by (metis less_irrefl)+
  show ?thesis
    using assms fresh unfolding registry_ok_def
    apply (simp add: send_fields getWorker_fields nth_append split: option.splits)
    apply (intro conjI allI impI)
                   apply (auto simp: nth_append less_Suc_eq)
    done
qed

lemma settle_effect_neq [simp]:
  "settle_effect p r \<noteq> PendingSet c q" "PendingSet c q \<noteq> settle_effect p r"
  by (cases r; simp add: settle_effect_def)+

lemma settled_with_not_Pending [simp]: "settled_with r \<noteq> Pending"
  by (cases r) (simp_all add: settled_with_def)

lemma registry_ok_listener:
  assumes "registry_ok s"
  shows "registry_ok (response_listener r s)"
proof (cases "pending s (response_id r)")
  case None
  then show ?thesis using assms by (simp add: response_listener_absent)
next
  case (Some p)
  note f = response_listener_present [OF Some]
  have p: "p < length (promises s)" "promises s ! p = Pending"
    and others: "\<And>c. c \<noteq> response_id r \<Longrightarrow> pending s c \<noteq> Some p"
    using assms Some unfolding registry_ok_def by blast+
  have none: "filter (settles p) (trace s) = []"
    using assms p unfolding registry_ok_def by blast
  show ?thesis
    using assms p none unfolding registry_ok_def
    apply (simp add: f)
    apply (intro conjI allI impI)
    using others apply (auto)
    done
qed

lemma registry_ok_step: "registry_ok s \<Longrightarrow> registry_ok (step s e)"
  by (cases e) (simp_all add: OPFSFileSystem_def registry_ok_send registry_ok_listener
      registry_ok_onerror)

lemma run_snoc: "run s (evs @ [e]) = step (run s evs) e"
  by (simp add: run_def)

lemma run_append: "run s (xs @ ys) = run (run s xs) ys"
  by (simp add: run_def)

lemma run_Nil: "run s [] = s"
  by (simp add: run_def)

lemma run_Cons: "run s (e # evs) = run (step s e) evs"
  by (simp add: run_def)

lemma registry_ok_run: "registry_ok s \<Longrightarrow> registry_ok (run s evs)"
  by (induction evs rule: rev_induct) (simp_all add: run_Nil run_snoc registry_ok_step)

lemma reachable_ok: "registry_ok (run init_bridge evs)"
  by (rule registry_ok_run [OF registry_ok_init])

lemma make_request_id [simp]: "correlationId (make_request k uuid) = uuid"
  by (cases k) simp_all

lemma step_untouched:
  assumes "\<not> touches c e"
  shows "pending (step s e) c = pending s c"
proof (cases e)
  case (Call k uuid)
  then show ?thesis using assms by (simp add: OPFSFileSystem_def send_fields)
next
  case (Message w r)
  then show ?thesis using assms
    by (cases "pending s (response_id r)")
       (simp_all add: response_listener_absent response_listener_present)
next
  case (ErrorEvent w m)
  then show ?thesis by (simp add: worker_onerror_fields)
qed

lemma run_untouched:
  "\<forall>e \<in> set evs. \<not> touches c e \<Longrightarrow> pending (run s evs) c = pending s c"
  by (induction evs rule: rev_induct) (simp_all add: run_Nil run_snoc step_untouched)

lemma step_workers_length: "length (workers s) \<le> length (workers (step s e))"
proof (cases e)
  case (Call k uuid)
  then show ?thesis
    by (simp add: OPFSFileSystem_def send_fields getWorker_fields split: option.splits)
next
  case (Message w r)
  then show ?thesis
    by (cases "pending s (response_id r)")
       (simp_all add: response_listener_absent response_listener_present)
next
  case (ErrorEvent w m)
  then show ?thesis by (simp add: worker_onerror_fields)
qed

lemmas bridge_defs =
  run_def init_bridge_def OPFSFileSystem_def send_def getWorker_def new_Worker_def
  set_onerror_def attachResponseListener_def new_Promise_def pending_set_def postMessage_def
  emit_def worker_onerror_def response_listener_def resolve_def reject_def settle_def
  settled_with_def settle_effect_def js_def Let_def

subsection \<open>Replaying the trace; envelopes in flight\<close>

lemma registry_after_append:
  "registry_after reg (xs @ ys) = registry_after (registry_after reg xs) ys"
  by (induction reg xs rule: registry_after.induct) simp_all

lemma posts_registered_append:
  "posts_registered reg (xs @ ys) =
     (posts_registered reg xs \<and> posts_registered (registry_after reg xs) ys)"
  by (induction reg xs rule: posts_registered.induct) simp_all

lemma replay_settle_effect [simp]:
  "registry_after reg (settle_effect p r # es) = registry_after reg es"
  "posts_registered reg (settle_effect p r # es) = posts_registered reg es"
  by (cases r; simp add: settle_effect_def)+

lemma step_replay:
  assumes "registry_after {} (trace s) = dom (pending s)" and "posts_registered {} (trace s)"
  shows "registry_after {} (trace (step s e)) = dom (pending (step s e))
       \<and> posts_registered {} (trace (step s e))"
proof (cases e)
  case (Call k uuid)
  then show ?thesis using assms
    by (simp add: OPFSFileSystem_def send_fields getWorker_fields registry_after_append
        posts_registered_append split: option.splits)
next
  case (Message w r)
  show ?thesis
  proof (cases "pending s (response_id r)")
    case None
    then show ?thesis using assms Message by (simp add: response_listener_absent)
  next
    case (Some p)
    then show ?thesis using assms Message
      by (auto simp: response_listener_present [OF Some] registry_after_append
          posts_registered_append)
  qed
next
  case (ErrorEvent w m)
  then show ?thesis using assms
    by (simp add: worker_onerror_fields registry_after_append posts_registered_append)
qed

lemma run_replay:
  "registry_after {} (trace (run init_bridge evs)) = dom (pending (run init_bridge evs))
   \<and> posts_registered {} (trace (run init_bridge evs))"
proof (induction evs rule: rev_induct)
  case Nil
  then show ?case by (simp add: run_Nil init_bridge_def)
next
  case (snoc e evs)
  then show ?case by (simp add: run_snoc step_replay)
qed

lemma call_ids_append: "call_ids (xs @ ys) = call_ids xs @ call_ids ys"
  by (induction xs rule: call_ids.induct) simp_all

lemma fst_track: "fst (foldl track (s, fl) evs) = run s evs"
  by (induction evs rule: rev_induct) (simp_all add: run_Nil run_snoc track_def)

lemma in_flight_snoc:
  "in_flight (evs @ [e]) = snd (track (run init_bridge evs, in_flight evs) e)"
  by (cases e) (simp_all add: in_flight_def track_def fst_track)

lemma in_flight_inv:
  assumes "distinct (call_ids evs)"
  shows "set (in_flight evs) \<subseteq> dom (pending (run init_bridge evs))
       \<and> distinct (in_flight evs) \<and> set (in_flight evs) \<subseteq> set (call_ids evs)"
  using assms
proof (induction evs rule: rev_induct)
  case Nil
  then show ?case by (simp add: in_flight_def)
next
  case (snoc e evs)
  then have IH: "set (in_flight evs) \<subseteq> dom (pending (run init_bridge evs))"
      "distinct (in_flight evs)" "set (in_flight evs) \<subseteq> set (call_ids evs)"
    by (simp_all add: call_ids_append)
  show ?case
  proof (cases e)
    case (Call k uuid)
    then have "uuid \<notin> set (call_ids evs)" using snoc.prems by (simp add: call_ids_append)
    then show ?thesis using IH Call
      by (auto simp: in_flight_snoc track_def run_snoc OPFSFileSystem_def send_fields
          call_ids_append)
  next
    case (Message w r)
    show ?thesis
    proof (cases "pending (run init_bridge evs) (response_id r)")
      case None
      then show ?thesis using IH Message
        by (auto simp: in_flight_snoc track_def run_snoc response_listener_absent
            call_ids_append)
    next
      case (Some p)
      then show ?thesis using IH Message
        by (auto simp: in_flight_snoc track_def run_snoc response_listener_present [OF Some]
            call_ids_append split: if_splits)
    qed
  next
    case (ErrorEvent w m)
    then show ?thesis using IH
      by (auto simp: in_flight_snoc track_def run_snoc worker_onerror_fields call_ids_append)
  qed
qed

subsection \<open>A batch of concurrent calls\<close>

lemma posted_append: "posted (xs @ ys) = posted xs @ posted ys"
  by (induction xs rule: posted.induct) simp_all

lemma issue_snoc: "issue (cs @ [(k, u)]) = issue cs @ [Call k u]"
  by (simp add: issue_def)

lemma step_trace:
  "\<exists>es. trace (step s e) = trace s @ es
     \<and> (\<forall>x \<in> set es. \<forall>p. settles p x \<longrightarrow>
          (\<exists>w r. e = Message w r \<and> x = settle_effect p r \<and> pending s (response_id r) = Some p))"
proof (cases e)
  case (Call k uuid)
  then show ?thesis
    by (simp add: OPFSFileSystem_def send_fields getWorker_fields split: option.splits)
next
  case (Message w r)
  show ?thesis
  proof (cases "pending s (response_id r)")
    case None
    then show ?thesis using Message by (simp add: response_listener_absent)
  next
    case (Some p)
    then show ?thesis using Message
      by (auto simp: response_listener_present [OF Some])
  qed
next
  case (ErrorEvent w m)
  then show ?thesis by (simp add: worker_onerror_fields)
qed

lemma run_trace_prefix: "\<exists>es. trace (run s evs) = trace s @ es"
proof (induction evs rule: rev_induct)
  case Nil
  then show ?case by (simp add: run_Nil)
next
  case (snoc e evs)
  then obtain es where es: "trace (run s evs) = trace s @ es" by blast
  obtain es' where "trace (step (run s evs) e) = trace (run s evs) @ es'"
    using step_trace [of "run s evs" e] by blast
  then show ?case using es by (simp add: run_snoc)
qed

lemma settle_provenance:
  assumes "registry_ok s" and "x \<in> set (trace (run s evs))" and "x \<notin> set (trace s)"
    and "settles p x"
  shows "\<exists>w r. Message w r \<in> set evs \<and> x = settle_effect p r
           \<and> PendingSet (response_id r) p \<in> set (trace (run s evs))"
  using assms(2,3)
proof (induction evs rule: rev_induct)
  case Nil
  then show ?case by (simp add: run_Nil)
next
  case (snoc e evs)
  let ?t = "run s evs"
  have ok: "registry_ok ?t" by (rule registry_ok_run [OF assms(1)])
  obtain es where es: "trace (step ?t e) = trace ?t @ es"
    and new: "\<forall>x \<in> set es. \<forall>p. settles p x \<longrightarrow>
          (\<exists>w r. e = Message w r \<and> x = settle_effect p r \<and> pending ?t (response_id r) = Some p)"
    using step_trace [of ?t e] by blast
  show ?case
  proof (cases "x \<in> set (trace ?t)")
    case True
    then show ?thesis using snoc es by (auto simp: run_snoc)
  next
    case False
    then have "x \<in> set es" using snoc.prems(1) es by (simp add: run_snoc)
    then obtain w r where r: "e = Message w r" "x = settle_effect p r"
        "pending ?t (response_id r) = Some p"
      using new assms(4) by blast
    then have "PendingSet (response_id r) p \<in> set (trace ?t)"
      using ok unfolding registry_ok_def by blast
    then show ?thesis using r es by (auto simp: run_snoc)
  qed
qed

lemma listener_twice:
  assumes "response_id r' = response_id r"
  shows "response_listener r' (response_listener r s) = response_listener r s"
proof (cases "pending s (response_id r)")
  case None
  then show ?thesis using assms by (simp add: response_listener_absent)
next
  case (Some p)
  have "pending (response_listener r s) (response_id r') = None"
    using assms by (simp add: response_listener_present [OF Some])
  then show ?thesis by (rule response_listener_absent)
qed

subsection \<open>Calls that draw their ids from the generator\<close>

lemma play_Nil: "play g sn [] = sn"
  by (simp add: play_def)

lemma play_Cons: "play g sn (i # ins) = play g (advance g sn i) ins"
  by (simp add: play_def)

lemma play_append: "play g sn (xs @ ys) = play g (play g sn xs) ys"
  by (simp add: play_def)

lemma play_snoc: "play g sn (ins @ [i]) = advance g (play g sn ins) i"
  by (simp add: play_def)

lemma advance_Invoke: "advance g (s, n) (Invoke k) = (step s (Call k (g n)), Suc n)"
  by (simp add: call_procedure_def randomUUID_def split_beta)

lemma play_events: "play g (s, n) ins = (run s (events_of g n ins), n + invocations ins)"
proof (induction ins arbitrary: s n)
  case Nil
  then show ?case by (simp add: play_Nil run_Nil)
next
  case (Cons i ins)
  then show ?case
    by (cases i) (simp_all add: play_Cons advance_Invoke run_Cons del: step.simps advance.simps(1))
qed

lemma sent_append: "sent (xs @ ys) = sent xs @ sent ys"
  by (induction xs rule: sent.induct) simp_all

lemma sent_settle_effect [simp]: "sent (settle_effect p r # es) = sent es"
  by (cases r) (simp_all add: settle_effect_def)

lemma posted_sent: "posted es = map snd (sent es)"
  by (induction es rule: sent.induct) simp_all

lemma sent_iff: "(w, req) \<in> set (sent es) \<longleftrightarrow> PostMessage w req \<in> set es"
  by (induction es rule: sent.induct) auto

lemma step_sent:
  "sent (trace (step s e)) =
     sent (trace s) @ (case e of Call k u \<Rightarrow> [(fst (getWorker s), make_request k u)] | _ \<Rightarrow> [])"
proof (cases e)
  case (Call k uuid)
  then show ?thesis
    by (simp add: OPFSFileSystem_def send_fields getWorker_fields sent_append split: option.splits)
next
  case (Message w r)
  then show ?thesis
    by (cases "pending s (response_id r)")
       (simp_all add: response_listener_absent response_listener_present sent_append)
next
  case (ErrorEvent w m)
  then show ?thesis by (simp add: worker_onerror_fields sent_append)
qed

lemma drawn_ids:
  "map (\<lambda>x. correlationId (snd x)) (sent (trace (run s (events_of g n ins))))
     = map (\<lambda>x. correlationId (snd x)) (sent (trace s)) @ map g [n..<n + invocations ins]"
proof (induction ins arbitrary: s n)
  case Nil
  then show ?case by (simp add: run_Nil)
next
  case (Cons i ins)
  show ?case
  proof (cases i)
    case (Invoke k)
    have "[n..<Suc (n + invocations ins)] = n # [Suc n..<Suc n + invocations ins]"
      by (simp add: upt_conv_Cons)
    then show ?thesis using Cons [of "step s (Call k (g n))" "Suc n"]
      by (simp add: Invoke run_Cons step_sent del: step.simps)
  next
    case (Receive w r)
    then show ?thesis using Cons [of "step s (Message w r)" n]
      by (simp add: run_Cons step_sent del: step.simps)
  next
    case (ErrorOn w m)
    then show ?thesis using Cons [of "step s (ErrorEvent w m)" n]
      by (simp add: run_Cons step_sent del: step.simps)
  qed
qed

lemma events_of_append:
  "events_of g n (xs @ ys) = events_of g n xs @ events_of g (n + invocations xs) ys"
  by (induction g n xs rule: events_of.induct) simp_all

lemma invocations_batch [simp]: "invocations (map Invoke ks) = length ks"
  by (induction ks) simp_all

lemma events_of_batch:
  "events_of g n (map Invoke ks) = issue (zip ks (map g [n..<n + length ks]))"
proof (induction ks rule: rev_induct)
  case Nil
  then show ?case by (simp add: issue_def)
next
  case (snoc k ks)
  then show ?case by (simp add: events_of_append issue_def)
qed

lemma batch_state:
  "promises (run s (issue cs)) = promises s @ replicate (length cs) Pending
   \<and> posted (trace (run s (issue cs)))
       = posted (trace s) @ map (\<lambda>(k, uuid). make_request k uuid) cs"
proof (induction cs rule: rev_induct)
  case Nil
  then show ?case by (simp add: issue_def run_Nil)
next
  case (snoc x cs)
  obtain k u where x: "x = (k, u)" by (cases x)
  show ?case using snoc
    by (simp add: x issue_snoc run_snoc OPFSFileSystem_def send_fields getWorker_fields
        posted_append replicate_append_same split: option.splits)
qed

lemma batch_registry:
  assumes "distinct (map snd cs)" and "i < length cs"
  shows "pending (run s (issue cs)) (snd (cs ! i)) = Some (length (promises s) + i)"
  using assms
proof (induction cs rule: rev_induct)
  case Nil
  then show ?case by simp
next
  case (snoc x cs)
  obtain k u where x: "x = (k, u)" by (cases x)
  have len: "length (promises (run s (issue cs))) = length (promises s) + length cs"
    using batch_state [of s cs] by simp
  show ?case
  proof (cases "i < length cs")
    case True
    then have "snd (cs ! i) \<in> set (map snd cs)" by simp
    then have "snd (cs ! i) \<noteq> u" using snoc.prems(1) by (auto simp: x)
    then show ?thesis using snoc True
      by (simp add: x issue_snoc run_snoc OPFSFileSystem_def send_fields nth_append)
  next
    case False
    then have "i = length cs" using snoc.prems(2) by simp
    then show ?thesis
      by (simp add: x issue_snoc run_snoc OPFSFileSystem_def send_fields len)
  qed
qed

lemma Message_events_of: "Message w r \<in> set (events_of g n ins) \<longleftrightarrow> Receive w r \<in> set ins"
  by (induction g n ins rule: events_of.induct) auto

lemma invocations_append: "invocations (xs @ ys) = invocations xs + invocations ys"
  by (induction xs rule: invocations.induct) simp_all

lemma call_ids_events_of: "call_ids (events_of g n ins) = map g [n..<n + invocations ins]"
proof (induction ins arbitrary: n rule: rev_induct)
  case Nil
  then show ?case by simp
next
  case (snoc i ins)
  then show ?case by (cases i) (simp_all add: events_of_append call_ids_append invocations_append)
qed

lemma dom_step: "dom (pending (step s e)) \<subseteq> dom (pending s) \<union> set (call_ids [e])"
proof (cases e)
  case (Call k uuid)
  then show ?thesis by (simp add: OPFSFileSystem_def send_fields)
next
  case (Message w r)
  then show ?thesis
    by (cases "pending s (response_id r)")
       (auto simp: response_listener_absent response_listener_present split: if_splits)
next
  case (ErrorEvent w m)
  then show ?thesis by (simp add: worker_onerror_fields)
qed

lemma dom_run: "dom (pending (run s evs)) \<subseteq> dom (pending s) \<union> set (call_ids evs)"
proof (induction evs rule: rev_induct)
  case Nil
  then show ?case by (simp add: run_Nil)
next
  case (snoc e evs)
  have "dom (pending (run s (evs @ [e]))) \<subseteq> dom (pending (run s evs)) \<union> set (call_ids [e])"
    unfolding run_snoc by (rule dom_step)
  then show ?case using snoc by (auto simp: call_ids_append)
qed

lemma registered_drawn:
  assumes "pending (run init_bridge (events_of g 0 ins)) c = Some p"
  shows "c \<in> g ` {..<invocations ins}"
proof -
  have "c \<in> dom (pending (run init_bridge (events_of g 0 ins)))" using assms by blast
  then have "c \<in> set (call_ids (events_of g 0 ins))"
    using dom_run [of init_bridge "events_of g 0 ins"] by (auto simp: init_bridge_def)
  then show ?thesis by (auto simp: call_ids_events_of)
qed

lemma distinct_draws: "inj g \<Longrightarrow> distinct (map g [m..<n])"
  by (simp add: distinct_map inj_on_def inj_def)

lemma inj_test_uuid: "inj test_uuid"
proof (rule injI)
  fix x y assume "test_uuid x = test_uuid y"
  then have "length (test_uuid x) = length (test_uuid y)" by simp
  then show "x = y" by (simp add: test_uuid_def)
qed

lemmas draw_defs = play_def call_procedure_def randomUUID_def test_uuid_def

subsection \<open>The uncaught-error handler\<close>

text \<open>
  Claim C9. The uncaught-error handler of a worker clears the singleton slot and writes
  one console line; the worker objects, the registry and the promises are left as they
  were. An entry registered before the error is therefore still in the registry after
  any later events that do not bear its correlation id, its promise is still pending,
  and a Result Envelope bearing that id, arriving on any worker object that exists by
  then (the old one or one created since), is not discarded: it removes the entry and
  settles the old promise.
\<close>

theorem onerror_keeps_registry:
  assumes "pending (run init_bridge evs) c = Some p"
    and "\<forall>e \<in> set later. \<not> touches c e"
    and "response_id r = c"
    and "w < length (workers (run (worker_onerror m (run init_bridge evs)) later))"
  shows "worker (worker_onerror m (run init_bridge evs)) = None
    \<and> workers (worker_onerror m (run init_bridge evs)) = workers (run init_bridge evs)
    \<and> pending (worker_onerror m (run init_bridge evs)) = pending (run init_bridge evs)
    \<and> promises (worker_onerror m (run init_bridge evs)) = promises (run init_bridge evs)
    \<and> trace (worker_onerror m (run init_bridge evs)) =
        trace (run init_bridge evs) @ [ConsoleError (js ''[OPFS Worker] Uncaught error: '' @ m)]
    \<and> pending (run (worker_onerror m (run init_bridge evs)) later) c = Some p
    \<and> promises (run (worker_onerror m (run init_bridge evs)) later) ! p = Pending
    \<and> promises (step (run (worker_onerror m (run init_bridge evs)) later) (Message w r)) ! p
        = settled_with r
    \<and> trace (step (run (worker_onerror m (run init_bridge evs)) later) (Message w r))
        = trace (run (worker_onerror m (run init_bridge evs)) later)
            @ [PendingDelete c, settle_effect p r]"
proof -
  let ?s = "run init_bridge evs"
  let ?s1 = "worker_onerror m ?s"
  let ?s2 = "run ?s1 later"
  have ok2: "registry_ok ?s2"
    by (intro registry_ok_run registry_ok_onerror reachable_ok)
  have kept: "pending ?s2 c = Some p"
    using assms(1,2) by (simp add: run_untouched worker_onerror_fields)
  have p: "p < length (promises ?s2)" "promises ?s2 ! p = Pending"
    using ok2 kept unfolding registry_ok_def by blast+
  have listen: "onmessage_set (workers ?s2 ! w)"
    using ok2 assms(4) unfolding registry_ok_def by blast
  have st: "step ?s2 (Message w r) = response_listener r ?s2"
    using listen assms(4) by simp
  have kept': "pending ?s2 (response_id r) = Some p"
    using kept assms(3) by simp
  show ?thesis
    using p kept assms(3)
    by (simp add: worker_onerror_fields st response_listener_present [OF kept']
          del: step.simps)
qed

theorem onerror_keeps_registry_witness:
  "pending (run init_bridge [Call CallInit (js ''a'')]) (js ''a'') = Some 0
   \<and> 1 < length (workers (run (worker_onerror (js ''boom'')
            (run init_bridge [Call CallInit (js ''a'')])) [Call CallList (js ''b'')]))
   \<and> promises (step (run (worker_onerror (js ''boom'')
            (run init_bridge [Call CallInit (js ''a'')])) [Call CallList (js ''b'')])
          (Message 1 (Success (js ''a'') (StrArray [])))) ! 0 = Fulfilled (StrArray [])"
proof -
  have h1: "pending (run init_bridge [Call CallInit (js ''a'')]) (js ''a'') = Some 0"
    by (simp add: bridge_defs)
  have h2: "\<forall>e \<in> set [Call CallList (js ''b'')]. \<not> touches (js ''a'') e"
    by (simp add: js_def)
  have h3: "response_id (Success (js ''a'') (StrArray [])) = js ''a''"
    by simp
  have h4: "1 < length (workers (run (worker_onerror (js ''boom'')
            (run init_bridge [Call CallInit (js ''a'')])) [Call CallList (js ''b'')]))"
    by (simp add: bridge_defs)
  show ?thesis
    using onerror_keeps_registry [OF h1 h2 h3 h4] h1 h4
    by (simp add: settled_with_def)
qed

subsection \<open>Registration precedes posting\<close>

text \<open>
  Claim C10. \<open>send\<close> registers the Pending Call Entry under the request's correlation
  id and only then posts the envelope: its two effects are, in this order, the
  \<open>pending.set\<close> and the \<open>postMessage\<close>, and the state in which \<open>postMessage\<close> runs
  already maps the id to the new promise. Over any sequence of events, every
  \<open>postMessage\<close> of the trace happens at a point where the id of its envelope is a key
  of the registry, and (the calls having drawn distinct ids) the id of every envelope in
  flight is a key of the registry.
\<close>

theorem registered_before_posted:
  assumes "distinct (call_ids evs)"
  shows "trace (snd (send req s)) =
           trace (snd (getWorker s))
           @ [PendingSet (correlationId req) (fst (send req s)), PostMessage (fst (getWorker s)) req]
    \<and> snd (send req s) =
        postMessage (fst (getWorker s)) req
          (pending_set (correlationId req) (fst (send req s)) (snd (new_Promise (snd (getWorker s)))))
    \<and> pending (pending_set (correlationId req) (fst (send req s))
          (snd (new_Promise (snd (getWorker s))))) (correlationId req) = Some (fst (send req s))
    \<and> trace (pending_set (correlationId req) (fst (send req s))
          (snd (new_Promise (snd (getWorker s)))))
        = trace (snd (getWorker s)) @ [PendingSet (correlationId req) (fst (send req s))]
    \<and> posts_registered {} (trace (run init_bridge evs))
    \<and> registry_after {} (trace (run init_bridge evs)) = dom (pending (run init_bridge evs))
    \<and> set (in_flight evs) \<subseteq> dom (pending (run init_bridge evs))"
proof -
  have a: "snd (send req s) =
        postMessage (fst (getWorker s)) req
          (pending_set (correlationId req) (fst (send req s)) (snd (new_Promise (snd (getWorker s)))))"
    by (simp add: send_def split_beta Let_def new_Promise_def)
  have b: "pending (pending_set (correlationId req) (fst (send req s))
          (snd (new_Promise (snd (getWorker s))))) (correlationId req) = Some (fst (send req s))"
    by (simp add: pending_set_def)
  have c: "trace (pending_set (correlationId req) (fst (send req s))
          (snd (new_Promise (snd (getWorker s)))))
        = trace (snd (getWorker s)) @ [PendingSet (correlationId req) (fst (send req s))]"
    by (simp add: pending_set_def new_Promise_def send_fields)
  have t: "trace (snd (send req s)) =
           trace (snd (getWorker s))
           @ [PendingSet (correlationId req) (fst (send req s)), PostMessage (fst (getWorker s)) req]"
    by (simp add: send_fields)
  show ?thesis
    using t a b c run_replay [of evs] in_flight_inv [OF assms]
    by blast
qed

theorem registered_before_posted_witness:
  "distinct (call_ids [Call CallInit (js ''a''), Call CallList (js ''b''),
        Message 0 (Success (js ''a'') Undefined)])
   \<and> in_flight [Call CallInit (js ''a''), Call CallList (js ''b''),
        Message 0 (Success (js ''a'') Undefined)] = [js ''b'']
   \<and> posts_registered {} (trace (run init_bridge [Call CallInit (js ''a''),
        Call CallList (js ''b''), Message 0 (Success (js ''a'') Undefined)]))
   \<and> set (in_flight [Call CallInit (js ''a''), Call CallList (js ''b''),
        Message 0 (Success (js ''a'') Undefined)])
      \<subseteq> dom (pending (run init_bridge [Call CallInit (js ''a''), Call CallList (js ''b''),
        Message 0 (Success (js ''a'') Undefined)]))"
proof -
  have h: "distinct (call_ids [Call CallInit (js ''a''), Call CallList (js ''b''),
        Message 0 (Success (js ''a'') Undefined)])"
    by (simp add: js_def)
  have f: "in_flight [Call CallInit (js ''a''), Call CallList (js ''b''),
        Message 0 (Success (js ''a'') Undefined)] = [js ''b'']"
    by (simp add: in_flight_def track_def bridge_defs)
  show ?thesis
    using registered_before_posted [OF h] h f by blast
qed

subsection \<open>Correlation of concurrent calls\<close>

text \<open>
  Claim C2. Each call of a procedure draws its correlation id by one call of
  \<open>crypto.randomUUID()\<close>, and the generator never returns the same value twice. Let N
  calls be issued in a row, after any earlier inputs. Then N ids have been drawn, the
  envelopes posted are the N requests, call number \<open>i\<close> bearing the draw number \<open>i\<close> of the
  batch; all ids posted so far are pairwise distinct, and no id of the batch had an
  entry in the registry when the batch began. The N promises are pending and call number
  \<open>i\<close> is registered under its own id. Whatever inputs follow, no promise is the target of
  more than one settling call; a settling call on a promise comes from a Result Envelope
  among the inputs, resolving with the envelope's data or rejecting with its error
  string, and the promise was registered under the id of that envelope and under no
  other; for call number \<open>i\<close> of the batch the envelope comes after the batch and bears
  the id of that call. The listener
  discards an envelope whose id has no entry, and otherwise removes the entry and then
  settles the promise; a second envelope with the same id changes nothing.
\<close>

theorem correlation:
  fixes g :: "nat \<Rightarrow> jsstring" and before later :: "input list" and ks :: "call list"
  defines "S0 \<equiv> play g (init_bridge, 0) before"
  defines "S1 \<equiv> play g S0 (map Invoke ks)"
  defines "S2 \<equiv> play g S1 later"
  assumes inj: "inj g"
  shows "snd S1 = snd S0 + length ks
    \<and> posted (trace (fst S1))
        = posted (trace (fst S0))
          @ map (\<lambda>(k, uuid). make_request k uuid) (zip ks (map g [snd S0..<snd S0 + length ks]))
    \<and> distinct (map correlationId (posted (trace (fst S1))))
    \<and> (\<forall>i < length ks. pending (fst S0) (g (snd S0 + i)) = None)
    \<and> promises (fst S1) = promises (fst S0) @ replicate (length ks) Pending
    \<and> (\<forall>i < length ks.
          pending (fst S1) (g (snd S0 + i)) = Some (length (promises (fst S0)) + i))
    \<and> (\<forall>p. length (filter (settles p) (trace (fst S2))) \<le> 1)
    \<and> (\<forall>p x. x \<in> set (trace (fst S2)) \<and> settles p x \<longrightarrow>
          (\<exists>w r. Receive w r \<in> set (before @ later) \<and> x = settle_effect p r
             \<and> PendingSet (response_id r) p \<in> set (trace (fst S2))))
    \<and> (\<forall>c c' p. PendingSet c p \<in> set (trace (fst S2))
              \<and> PendingSet c' p \<in> set (trace (fst S2)) \<longrightarrow> c = c')
    \<and> (\<forall>i x. i < length ks \<and> x \<in> set (trace (fst S2))
              \<and> settles (length (promises (fst S0)) + i) x \<longrightarrow>
          (\<exists>w r. Receive w r \<in> set later
             \<and> x = settle_effect (length (promises (fst S0)) + i) r
             \<and> response_id r = g (snd S0 + i)))
    \<and> (pending s (response_id r) = None \<longrightarrow> response_listener r s = s)
    \<and> (\<forall>p. pending s (response_id r) = Some p \<longrightarrow>
          pending (response_listener r s) = (pending s)(response_id r := None)
          \<and> trace (response_listener r s) = trace s @ [PendingDelete (response_id r), settle_effect p r]
          \<and> promises (response_listener r s) = promises (settle p (settled_with r) s))
    \<and> (\<forall>r'. response_id r' = response_id r \<longrightarrow>
          response_listener r' (response_listener r s) = response_listener r s)"
proof -
  define n0 where "n0 = invocations before"
  define s0 where "s0 = run init_bridge (events_of g 0 before)"
  define cs where "cs = zip ks (map g [n0..<n0 + length ks])"
  define s1 where "s1 = run s0 (issue cs)"
  define n1 where "n1 = n0 + length ks"
  define s2 where "s2 = run s1 (events_of g n1 later)"
  have S0: "S0 = (s0, n0)" by (simp add: S0_def play_events s0_def n0_def)
  have S1: "S1 = (s1, n1)"
    by (simp add: S1_def S0 play_events events_of_batch s1_def cs_def n1_def)
  have S2: "S2 = (s2, n1 + invocations later)" by (simp add: S2_def S1 play_events s2_def)
  have s1_run: "s1 = run init_bridge (events_of g 0 (before @ map Invoke ks))"
    by (simp add: s1_def s0_def cs_def events_of_append events_of_batch run_append n0_def)
  have ok0: "registry_ok s0" unfolding s0_def by (rule reachable_ok)
  have ok1: "registry_ok s1" unfolding s1_def by (rule registry_ok_run [OF ok0])
  have ok2: "registry_ok s2" unfolding s2_def by (rule registry_ok_run [OF ok1])
  have len: "length cs = length ks" and ids: "map snd cs = map g [n0..<n0 + length ks]"
    by (simp_all add: cs_def)
  have dist: "distinct (map snd cs)" unfolding ids by (rule distinct_draws [OF inj])
  have nth: "snd (cs ! i) = g (n0 + i)" if "i < length ks" for i
    using that by (simp add: cs_def)
  have a: "snd S1 = snd S0 + length ks" by (simp add: S0 S1 n1_def)
  have b: "posted (trace s1) = posted (trace s0) @ map (\<lambda>(k, uuid). make_request k uuid) cs"
    and e: "promises s1 = promises s0 @ replicate (length ks) Pending"
    using batch_state [of s0 cs] by (simp_all add: s1_def len)
  have "map correlationId (posted (trace s1)) = map g [0..<n1]"
    using drawn_ids [of init_bridge g 0 "before @ map Invoke ks"]
    by (simp add: s1_run posted_sent init_bridge_def n1_def n0_def comp_def invocations_append)
  then have c: "distinct (map correlationId (posted (trace s1)))"
    by (simp add: distinct_draws [OF inj])
  have d: "\<forall>i < length ks. pending s0 (g (n0 + i)) = None"
  proof (intro allI impI)
    fix i assume "i < length ks"
    show "pending s0 (g (n0 + i)) = None"
    proof (rule ccontr)
      assume "pending s0 (g (n0 + i)) \<noteq> None"
      then obtain p where "pending s0 (g (n0 + i)) = Some p" by blast
      then have "g (n0 + i) \<in> g ` {..<n0}"
        using registered_drawn [of g before] by (simp add: s0_def n0_def)
      then show False using inj by (auto simp: inj_def)
    qed
  qed
  have f: "\<forall>i < length ks. pending s1 (g (n0 + i)) = Some (length (promises s0) + i)"
    using batch_registry [OF dist, of _ s0] nth by (simp add: s1_def len)
  have h: "\<forall>p. length (filter (settles p) (trace s2)) \<le> 1"
    using ok2 unfolding registry_ok_def by blast
  have s2_run: "s2 = run init_bridge (events_of g 0 (before @ map Invoke ks @ later))"
    by (simp add: s2_def s1_run events_of_append run_append n1_def n0_def invocations_append)
  have gp: "\<forall>p x. x \<in> set (trace s2) \<and> settles p x \<longrightarrow>
          (\<exists>w r. Receive w r \<in> set (before @ later) \<and> x = settle_effect p r
             \<and> PendingSet (response_id r) p \<in> set (trace s2))"
  proof (intro allI impI)
    fix p x assume x: "x \<in> set (trace s2) \<and> settles p x"
    obtain w r where "Message w r \<in> set (events_of g 0 (before @ map Invoke ks @ later))"
        "x = settle_effect p r" "PendingSet (response_id r) p \<in> set (trace s2)"
      using settle_provenance [where s = init_bridge and x = x and p = p
          and evs = "events_of g 0 (before @ map Invoke ks @ later)"] registry_ok_init x
      unfolding s2_run by (auto simp: init_bridge_def)
    then show "\<exists>w r. Receive w r \<in> set (before @ later) \<and> x = settle_effect p r
             \<and> PendingSet (response_id r) p \<in> set (trace s2)"
      by (auto simp: Message_events_of)
  qed
  have un: "\<forall>c c' p. PendingSet c p \<in> set (trace s2) \<and> PendingSet c' p \<in> set (trace s2)
      \<longrightarrow> c = c'"
    using ok2 unfolding registry_ok_def by blast
  have i: "\<exists>w r. Receive w r \<in> set later \<and> x = settle_effect (length (promises s0) + j) r
             \<and> response_id r = g (n0 + j)"
    if j: "j < length ks" and x: "x \<in> set (trace s2)" "settles (length (promises s0) + j) x"
    for j x
  proof -
    let ?q = "length (promises s0) + j"
    have reg: "pending s1 (g (n0 + j)) = Some ?q" using f j by blast
    then have q: "?q < length (promises s1)" "promises s1 ! ?q = Pending"
      and ps: "PendingSet (g (n0 + j)) ?q \<in> set (trace s1)"
      using ok1 unfolding registry_ok_def by blast+
    have "filter (settles ?q) (trace s1) = []"
      using ok1 q unfolding registry_ok_def by blast
    then have "x \<notin> set (trace s1)" using x(2) by (auto simp: filter_empty_conv)
    then obtain w r where r: "Message w r \<in> set (events_of g n1 later)" "x = settle_effect ?q r"
      "PendingSet (response_id r) ?q \<in> set (trace s2)"
      using settle_provenance [where s = s1 and x = x and evs = "events_of g n1 later" and p = ?q]
        ok1 x by (auto simp: s2_def)
    obtain es where "trace s2 = trace s1 @ es"
      using run_trace_prefix [of s1 "events_of g n1 later"] by (auto simp: s2_def)
    then have "PendingSet (g (n0 + j)) ?q \<in> set (trace s2)" using ps by simp
    then have "response_id r = g (n0 + j)" using r(3) ok2 unfolding registry_ok_def by blast
    then show ?thesis using r(1,2) by (auto simp: Message_events_of)
  qed
  have k: "pending s (response_id r) = None \<longrightarrow> response_listener r s = s"
    by (simp add: response_listener_absent)
  have l: "\<forall>p. pending s (response_id r) = Some p \<longrightarrow>
          pending (response_listener r s) = (pending s)(response_id r := None)
          \<and> trace (response_listener r s) = trace s @ [PendingDelete (response_id r), settle_effect p r]
          \<and> promises (response_listener r s) = promises (settle p (settled_with r) s)"
    by (cases r) (auto simp: response_listener_def resolve_def reject_def settle_def emit_def
        settle_effect_def settled_with_def Let_def)
  have m: "\<forall>r'. response_id r' = response_id r \<longrightarrow>
          response_listener r' (response_listener r s) = response_listener r s"
    using listener_twice by blast
  have i': "\<forall>i x. i < length ks \<and> x \<in> set (trace s2)
              \<and> settles (length (promises s0) + i) x \<longrightarrow>
          (\<exists>w r. Receive w r \<in> set later
             \<and> x = settle_effect (length (promises s0) + i) r
             \<and> response_id r = g (n0 + i))"
    using i by blast
  show ?thesis
    unfolding S0 S1 S2 fst_conv snd_conv cs_def [symmetric]
    by (intro conjI a [unfolded S0 S1 fst_conv snd_conv] b c d e f h gp un i' k l m)
qed

theorem correlation_witness:
  "inj test_uuid
   \<and> snd (play test_uuid (init_bridge, 0) [Invoke CallInit]) = 1
   \<and> map correlationId (posted (trace (fst (play test_uuid (init_bridge, 0)
        ([Invoke CallInit] @ map Invoke [CallList, CallRead (js ''f'')])))))
      = [test_uuid 0, test_uuid 1, test_uuid 2]
   \<and> pending (fst (play test_uuid (init_bridge, 0)
        ([Invoke CallInit] @ map Invoke [CallList, CallRead (js ''f'')]))) (test_uuid 2) = Some 2
   \<and> promises (fst (play test_uuid (init_bridge, 0)
        ([Invoke CallInit] @ map Invoke [CallList, CallRead (js ''f'')]
         @ [Receive 0 (Success (test_uuid 2) (Str (js ''x''))),
            Receive 0 (Failure (test_uuid 2) (js ''y''))])))
      = [Pending, Pending, Fulfilled (Str (js ''x''))]
   \<and> length (filter (settles 2) (trace (fst (play test_uuid (init_bridge, 0)
        ([Invoke CallInit] @ map Invoke [CallList, CallRead (js ''f'')]
         @ [Receive 0 (Success (test_uuid 2) (Str (js ''x''))),
            Receive 0 (Failure (test_uuid 2) (js ''y''))]))))) = 1"
proof -
  have a: "snd (play test_uuid (init_bridge, 0) [Invoke CallInit]) = 1"
    by (simp add: draw_defs bridge_defs eval_nat_numeral)
  have q: "promises (fst (play test_uuid (init_bridge, 0)
        ([Invoke CallInit] @ map Invoke [CallList, CallRead (js ''f'')]
         @ [Receive 0 (Success (test_uuid 2) (Str (js ''x''))),
            Receive 0 (Failure (test_uuid 2) (js ''y''))])))
      = [Pending, Pending, Fulfilled (Str (js ''x''))]"
    by (simp add: draw_defs bridge_defs eval_nat_numeral)
  have n: "length (filter (settles 2) (trace (fst (play test_uuid (init_bridge, 0)
        ([Invoke CallInit] @ map Invoke [CallList, CallRead (js ''f'')]
         @ [Receive 0 (Success (test_uuid 2) (Str (js ''x''))),
            Receive 0 (Failure (test_uuid 2) (js ''y''))]))))) = 1"
    by (simp add: draw_defs bridge_defs eval_nat_numeral)
  have p: "pending (fst (play test_uuid (init_bridge, 0)
        ([Invoke CallInit] @ map Invoke [CallList, CallRead (js ''f'')]))) (test_uuid 2) = Some 2"
    by (simp add: draw_defs bridge_defs eval_nat_numeral)
  have i: "map correlationId (posted (trace (fst (play test_uuid (init_bridge, 0)
        ([Invoke CallInit] @ map Invoke [CallList, CallRead (js ''f'')])))))
      = [test_uuid 0, test_uuid 1, test_uuid 2]"
    by (simp add: draw_defs bridge_defs eval_nat_numeral)
  show ?thesis
    using correlation [where g = test_uuid and before = "[Invoke CallInit]"
        and ks = "[CallList, CallRead (js ''f'')]", OF inj_test_uuid] a q n p i inj_test_uuid
    by simp
qed

section \<open>Properties of the text encoding\<close>

lemma decoder_1:
  assumes "cp < 0x80"
  shows "utf8_decoder 0 0 0 0x80 0xBF (utf8_bytes cp @ rest) = cp # utf8_decoder 0 0 0 0x80 0xBF rest"
  using assms by (simp add: utf8_bytes_def)

lemma split64: "\<exists>d m. (cp::nat) = d * 0x40 + m \<and> m < 0x40 \<and> cp div 0x40 = d \<and> cp mod 0x40 = m"
  by (rule exI [of _ "cp div 0x40"], rule exI [of _ "cp mod 0x40"]) simp

lemma low6 [simp]: "m < 0x40 \<Longrightarrow> (0x80 + m) mod 0x40 = (m::nat)"
  by (simp add: mod_add_left_eq [of "0x80" "0x40" m, symmetric])

lemma lead2 [simp]: "d < 0x20 \<Longrightarrow> (0xC0 + d) mod 0x20 = (d::nat)"
  by (simp add: mod_add_left_eq [of "0xC0" "0x20" d, symmetric])

lemma lead3 [simp]: "d < 0x10 \<Longrightarrow> (0xE0 + d) mod 0x10 = (d::nat)"
  by (simp add: mod_add_left_eq [of "0xE0" "0x10" d, symmetric])

lemma lead4 [simp]: "d < 8 \<Longrightarrow> (0xF0 + d) mod 8 = (d::nat)"
  by (simp add: mod_add_left_eq [of "0xF0" "8" d, symmetric])

lemma dec2:
  assumes "2 \<le> d" "d < 0x20" "m < 0x40"
  shows "utf8_decoder 0 0 0 0x80 0xBF ((0xC0 + d) # (0x80 + m) # rest)
         = (d * 0x40 + m) # utf8_decoder 0 0 0 0x80 0xBF rest"
  using assms by simp

lemma dec3:
  assumes "d < 0x10" "m1 < 0x40" "m2 < 0x40" "d = 0 \<longrightarrow> 0x20 \<le> m1" "d = 0xD \<longrightarrow> m1 < 0x20"
  shows "utf8_decoder 0 0 0 0x80 0xBF ((0xE0 + d) # (0x80 + m1) # (0x80 + m2) # rest)
         = ((d * 0x40 + m1) * 0x40 + m2) # utf8_decoder 0 0 0 0x80 0xBF rest"
  using assms by (auto simp: not_less)

lemma dec4:
  assumes "d < 5" "m1 < 0x40" "m2 < 0x40" "m3 < 0x40" "d = 0 \<longrightarrow> 0x10 \<le> m1" "d = 4 \<longrightarrow> m1 < 0x10"
  shows "utf8_decoder 0 0 0 0x80 0xBF ((0xF0 + d) # (0x80 + m1) # (0x80 + m2) # (0x80 + m3) # rest)
         = (((d * 0x40 + m1) * 0x40 + m2) * 0x40 + m3) # utf8_decoder 0 0 0 0x80 0xBF rest"
  using assms by (auto simp: not_less)

lemma div_4096: "(cp::nat) div 0x1000 = cp div 0x40 div 0x40"
  using div_mult2_eq [of cp "0x40" "0x40"] by simp

lemma div_262144: "(cp::nat) div 0x40000 = cp div 0x40 div 0x40 div 0x40"
  using div_mult2_eq [of cp "0x1000" "0x40"] by (simp add: div_4096)

lemma decoder_encoded:
  assumes "scalar cp"
  shows "utf8_decoder 0 0 0 0x80 0xBF (utf8_bytes cp @ rest) = cp # utf8_decoder 0 0 0 0x80 0xBF rest"
proof -
  obtain q m3 where q: "cp = q * 0x40 + m3" "m3 < 0x40" "cp div 0x40 = q" "cp mod 0x40 = m3"
    using split64 [of cp] by blast
  obtain r m2 where r: "q = r * 0x40 + m2" "m2 < 0x40" "q div 0x40 = r" "q mod 0x40 = m2"
    using split64 [of q] by blast
  obtain d m1 where d: "r = d * 0x40 + m1" "m1 < 0x40" "r div 0x40 = d" "r mod 0x40 = m1"
    using split64 [of r] by blast
  consider "cp < 0x80" | "0x80 \<le> cp" "cp < 0x800" | "0x800 \<le> cp" "cp < 0x10000"
    | "0x10000 \<le> cp" by linarith
  then show ?thesis
  proof cases
    case 1
    then show ?thesis by (rule decoder_1)
  next
    case 2
    then have "2 \<le> q" "q < 0x20" using q(1,2) by linarith+
    then show ?thesis using 2 q dec2 [of q m3 rest]
      by (simp add: utf8_bytes_def)
  next
    case 3
    then have b: "r < 0x10" "r = 0 \<longrightarrow> 0x20 \<le> m2" "r = 0xD \<longrightarrow> m2 < 0x20"
      using q(1,2) r(1,2) assms unfolding scalar_def by linarith+
    show ?thesis using 3 q r b dec3 [of r m2 m3 rest]
      by (simp add: utf8_bytes_def div_4096)
  next
    case 4
    then have b: "d < 5" "d = 0 \<longrightarrow> 0x10 \<le> m1" "d = 4 \<longrightarrow> m1 < 0x10"
      using q(1,2) r(1,2) d(1,2) assms unfolding scalar_def by linarith+
    show ?thesis using 4 q r d b dec4 [of d m1 m2 m3 rest]
      by (simp add: utf8_bytes_def div_4096 div_262144)
  qed
qed

lemma cont_bound: "0x80 + x mod 0x40 < (256::nat)"
proof -
  have "x mod 0x40 < 0x40" by simp
  then show ?thesis by linarith
qed

lemma utf8_bytes_bound:
  assumes "scalar cp" and "b \<in> set (utf8_bytes cp)"
  shows "b < 256"
proof -
  have a: "cp div 0x40 < 0x20" if "cp < 0x800" using that by (simp add: less_mult_imp_div_less)
  have b: "cp div 0x1000 < 0x10" if "cp < 0x10000" using that by (simp add: less_mult_imp_div_less)
  have c: "cp div 0x40000 < 5" using assms(1) by (simp add: scalar_def less_mult_imp_div_less)
  consider "cp < 0x80" | "0x80 \<le> cp" "cp < 0x800" | "0x800 \<le> cp" "cp < 0x10000"
    | "0x10000 \<le> cp" by linarith
  then show ?thesis
  proof cases
    case 1
    then show ?thesis using assms(2) by (simp add: utf8_bytes_def)
  next
    case 2
    then show ?thesis using assms(2) a cont_bound [of cp]
      by (auto simp: utf8_bytes_def)
  next
    case 3
    then show ?thesis using assms(2) b cont_bound [of cp] cont_bound [of "cp div 0x40"]
      by (auto simp: utf8_bytes_def)
  next
    case 4
    then show ?thesis using assms(2) c cont_bound [of cp] cont_bound [of "cp div 0x40"]
        cont_bound [of "cp div 0x1000"]
      by (auto simp: utf8_bytes_def)
  qed
qed

lemma unat_byte: "x < 256 \<Longrightarrow> unat (of_nat x :: byte) = x"
  by (simp add: unat_of_nat)

lemma map_unat_bytes:
  "\<forall>b \<in> set xs. b < 256 \<Longrightarrow> map unat (map of_nat xs :: byte list) = xs"
  by (induction xs) (simp_all add: unat_byte)

lemma unat_code_unit: "unat (c :: code_unit) < 0x10000"
  using unsigned_less [of c, where 'a = nat] by simp

lemma pair_scalar:
  assumes "is_lead c" "is_trail d"
  shows "scalar (0x10000 + (unat c - 0xD800) * 0x400 + (unat d - 0xDC00))"
proof -
  define x where "x = unat c - 0xD800"
  define y where "y = unat d - 0xDC00"
  have x: "x \<le> 0x3FF" using assms(1) unfolding x_def is_lead_def by linarith
  have y: "y \<le> 0x3FF" using assms(2) unfolding y_def is_trail_def by linarith
  have "0x10000 + x * 0x400 + y < 0x110000" using x y by linarith
  moreover have "0xDFFF < 0x10000 + x * 0x400 + y" by linarith
  ultimately have "scalar (0x10000 + x * 0x400 + y)" by (simp add: scalar_def)
  then show ?thesis by (simp add: x_def y_def)
qed

lemma unit_scalar:
  assumes "\<not> is_lead c" "\<not> is_trail c"
  shows "scalar (unat c)"
proof -
  have "unat c < 0xD800 \<or> 0xDFFF < unat c"
    using assms unfolding is_lead_def is_trail_def by linarith
  then show ?thesis using unat_code_unit [of c] by (auto simp: scalar_def)
qed

lemma replacement_scalar: "scalar 0xFFFD"
  by (simp add: scalar_def)

lemma scalar_values_scalar: "cp \<in> set (scalar_values s) \<Longrightarrow> scalar cp"
proof (induction s rule: scalar_values.induct)
  case 1
  then show ?case by simp
next
  case (2 c)
  then show ?case using unit_scalar [of c] replacement_scalar
    by (auto split: if_splits)
next
  case (3 c d cs)
  then show ?case using unit_scalar [of c] replacement_scalar pair_scalar [of c d]
    by (auto split: if_splits)
qed

lemma decoder_concat:
  "\<forall>cp \<in> set cps. scalar cp \<Longrightarrow>
     utf8_decoder 0 0 0 0x80 0xBF (concat (map utf8_bytes cps) @ rest)
       = cps @ utf8_decoder 0 0 0 0x80 0xBF rest"
  by (induction cps) (simp_all add: decoder_encoded)

lemma concat_bytes_bound:
  "\<forall>cp \<in> set cps. scalar cp \<Longrightarrow> \<forall>b \<in> set (concat (map utf8_bytes cps)). b < 256"
  using utf8_bytes_bound by auto

lemma decode_encoded_no_bom:
  "utf8_decoder 0 0 0 0x80 0xBF (map unat (TextEncoder_encode s)) = scalar_values s"
proof -
  have sc: "\<forall>cp \<in> set (scalar_values s). scalar cp" using scalar_values_scalar by blast
  have "map unat (TextEncoder_encode s) = concat (map utf8_bytes (scalar_values s))"
    unfolding TextEncoder_encode_def by (rule map_unat_bytes [OF concat_bytes_bound [OF sc]])
  then show ?thesis using decoder_concat [OF sc, of "[]"] by simp
qed

lemma code_units_unit: "code_units (unat (c :: code_unit)) = [c]"
  using unat_code_unit [of c] by (simp add: code_units_def)

lemma code_units_pair:
  assumes "is_lead c" "is_trail d"
  shows "code_units (0x10000 + (unat c - 0xD800) * 0x400 + (unat d - 0xDC00)) = [c, d]"
proof -
  define x where "x = unat c - 0xD800"
  define y where "y = unat d - 0xDC00"
  have c: "0xD800 + x = unat c" using assms(1) unfolding x_def is_lead_def by linarith
  have d: "0xDC00 + y = unat d" using assms(2) unfolding y_def is_trail_def by linarith
  have y: "y < 0x400" using assms(2) unfolding y_def is_trail_def by linarith
  have "code_units (0x10000 + x * 0x400 + y) = [of_nat (0xD800 + x), of_nat (0xDC00 + y)]"
    using y by (simp add: code_units_def)
  then show ?thesis unfolding c d by (simp add: x_def y_def)
qed

lemma usv_well_formed: "well_formed s \<Longrightarrow> usv s = s"
  unfolding usv_def string_of_scalars_def
  by (induction s rule: scalar_values.induct)
     (simp_all add: code_units_unit code_units_pair split: if_splits)

lemma utf8_bytes_bom: "utf8_bytes 0xFEFF = [0xEF, 0xBB, 0xBF]"
  by (simp add: utf8_bytes_def)

lemma byte_eq: "a < 256 \<Longrightarrow> b < 256 \<Longrightarrow> (of_nat a :: byte) = of_nat b \<Longrightarrow> a = b"
  by (metis unat_byte)

lemma first_byte_EF:
  assumes "scalar cp" and "(of_nat (hd (utf8_bytes cp)) :: byte) = 0xEF"
  shows "0x800 \<le> cp \<and> cp < 0x10000 \<and> cp div 0x1000 = 0xF"
proof -
  have b: "hd (utf8_bytes cp) < 256"
    using utf8_bytes_bound [OF assms(1), of "hd (utf8_bytes cp)"]
    by (simp add: utf8_bytes_def)
  have "(of_nat (hd (utf8_bytes cp)) :: byte) = of_nat 0xEF" using assms(2) by simp
  then have e: "hd (utf8_bytes cp) = 0xEF" using byte_eq [OF b, of "0xEF"] by simp
  have a: "cp div 0x40 < 0x20" if "cp < 0x800" using that by (simp add: less_mult_imp_div_less)
  show ?thesis using e a
    by (auto simp: utf8_bytes_def split: if_splits)
qed

lemma three_bytes_bom:
  assumes "scalar cp" and "take 3 (map of_nat (utf8_bytes cp) @ rest) = [0xEF, 0xBB, 0xBF :: byte]"
  shows "cp = 0xFEFF"
proof -
  have ne: "utf8_bytes cp \<noteq> []" by (simp add: utf8_bytes_def)
  then have "hd (take 3 (map of_nat (utf8_bytes cp) @ rest)) = (of_nat (hd (utf8_bytes cp)) :: byte)"
    by (cases "utf8_bytes cp") simp_all
  then have "(of_nat (hd (utf8_bytes cp)) :: byte) = 0xEF" using assms(2) by simp
  then have r: "0x800 \<le> cp" "cp < 0x10000" "cp div 0x1000 = 0xF"
    using first_byte_EF [OF assms(1)] by simp_all
  then have bs: "utf8_bytes cp = [0xE0 + cp div 0x1000, 0x80 + (cp div 0x40) mod 0x40, 0x80 + cp mod 0x40]"
    by (simp add: utf8_bytes_def)
  have "(of_nat (0x80 + (cp div 0x40) mod 0x40) :: byte) = of_nat 0xBB"
    and "(of_nat (0x80 + cp mod 0x40) :: byte) = of_nat 0xBF"
    using assms(2) unfolding bs by simp_all
  then have m: "0x80 + (cp div 0x40) mod 0x40 = 0xBB" "0x80 + cp mod 0x40 = 0xBF"
    using byte_eq [OF cont_bound [of "cp div 0x40"], of "0xBB"] byte_eq [OF cont_bound [of cp], of "0xBF"]
    by simp_all
  obtain q m3 where q: "cp = q * 0x40 + m3" "cp div 0x40 = q" "cp mod 0x40 = m3"
    using split64 [of cp] by blast
  obtain d m2 where d: "q = d * 0x40 + m2" "q div 0x40 = d" "q mod 0x40 = m2"
    using split64 [of q] by blast
  have "d = 0xF" using r(3) q(2) d(2) by (simp add: div_4096)
  moreover have "m2 = 0x3B" using m(1) q(2) d(3) by simp
  moreover have "m3 = 0x3F" using m(2) q(3) by simp
  ultimately show ?thesis using q(1) d(1) by simp
qed

lemma unat_bom: "unat (c :: code_unit) = 0xFEFF \<longleftrightarrow> c = 0xFEFF"
proof
  assume "unat c = 0xFEFF"
  then have "unat c = unat (0xFEFF :: code_unit)" by simp
  then show "c = 0xFEFF" by (simp only: word_unat_eq_iff [symmetric])
next
  assume "c = 0xFEFF"
  then show "unat c = 0xFEFF" by simp
qed

lemma bom_not_surrogate: "\<not> is_lead 0xFEFF" "\<not> is_trail 0xFEFF"
  by (simp_all add: is_lead_def is_trail_def)

lemma scalar_values_Cons:
  "\<exists>cp rest. scalar_values (c # cs) = cp # scalar_values rest
     \<and> (cp = 0xFEFF \<longleftrightarrow> c = 0xFEFF) \<and> (c = 0xFEFF \<longrightarrow> rest = cs)"
proof (cases cs)
  case Nil
  show ?thesis
  proof (cases "is_lead c \<or> is_trail c")
    case True
    then have "c \<noteq> 0xFEFF" using bom_not_surrogate by blast
    moreover have "scalar_values [c] = 0xFFFD # scalar_values []" using True by simp
    ultimately show ?thesis unfolding Nil by (intro exI [of _ "0xFFFD"] exI [of _ "[]"]) simp
  next
    case False
    then have "scalar_values [c] = unat c # scalar_values []" by simp
    then show ?thesis unfolding Nil
      by (intro exI [of _ "unat c"] exI [of _ "[]"]) (simp add: unat_bom)
  qed
next
  case (Cons d ds)
  consider "is_lead c" "is_trail d" | "is_lead c" "\<not> is_trail d" | "\<not> is_lead c" "is_trail c"
    | "\<not> is_lead c" "\<not> is_trail c" by blast
  then show ?thesis
  proof cases
    case 1
    then have "c \<noteq> 0xFEFF" using bom_not_surrogate by blast
    moreover have "scalar_values (c # d # ds)
        = (0x10000 + (unat c - 0xD800) * 0x400 + (unat d - 0xDC00)) # scalar_values ds"
      using 1 by simp
    moreover have "0x10000 + (unat c - 0xD800) * 0x400 + (unat d - 0xDC00) \<noteq> 0xFEFF"
      by linarith
    ultimately show ?thesis unfolding Cons by blast
  next
    case 2
    then have "c \<noteq> 0xFEFF" using bom_not_surrogate by blast
    moreover have "scalar_values (c # d # ds) = 0xFFFD # scalar_values (d # ds)"
      using 2 by simp
    ultimately show ?thesis unfolding Cons
      by (intro exI [of _ "0xFFFD"] exI [of _ "d # ds"]) simp
  next
    case 3
    then have "c \<noteq> 0xFEFF" using bom_not_surrogate by blast
    moreover have "scalar_values (c # d # ds) = 0xFFFD # scalar_values (d # ds)"
      using 3 by simp
    ultimately show ?thesis unfolding Cons
      by (intro exI [of _ "0xFFFD"] exI [of _ "d # ds"]) simp
  next
    case 4
    then have "scalar_values (c # d # ds) = unat c # scalar_values (d # ds)" by simp
    then show ?thesis unfolding Cons
      by (intro exI [of _ "unat c"] exI [of _ "d # ds"]) (simp add: unat_bom)
  qed
qed

lemma strip_bom_encoded: "strip_bom (TextEncoder_encode s) = TextEncoder_encode (without_bom s)"
proof (cases s)
  case Nil
  then show ?thesis by (simp add: strip_bom_def TextEncoder_encode_def without_bom_def)
next
  case (Cons c cs)
  obtain cp rest where cp: "scalar_values (c # cs) = cp # scalar_values rest"
      "cp = 0xFEFF \<longleftrightarrow> c = 0xFEFF" "c = 0xFEFF \<longrightarrow> rest = cs"
    using scalar_values_Cons [of c cs] by blast
  have sc: "scalar cp" using scalar_values_scalar [of cp "c # cs"] cp(1) by simp
  have enc: "TextEncoder_encode (c # cs) = map of_nat (utf8_bytes cp) @ TextEncoder_encode rest"
    by (simp add: TextEncoder_encode_def cp(1))
  show ?thesis
  proof (cases "c = 0xFEFF")
    case True
    then have "TextEncoder_encode (c # cs) = [0xEF, 0xBB, 0xBF] @ TextEncoder_encode cs"
      using enc cp(2,3) by (simp add: utf8_bytes_bom)
    then show ?thesis using True Cons by (simp add: strip_bom_def without_bom_def)
  next
    case False
    then have "cp \<noteq> 0xFEFF" using cp(2) by simp
    then have "take 3 (TextEncoder_encode (c # cs)) \<noteq> [0xEF, 0xBB, 0xBF]"
      unfolding enc using three_bytes_bom [OF sc] by blast
    then show ?thesis using False Cons by (simp add: strip_bom_def without_bom_def)
  qed
qed

lemma decode_encode: "utf8_decode (TextEncoder_encode s) = usv (without_bom s)"
  by (simp add: utf8_decode_def strip_bom_encoded decode_encoded_no_bom usv_def)

lemma decode_encode_well_formed:
  assumes "well_formed s" and "without_bom s = s"
  shows "utf8_decode (TextEncoder_encode s) = s"
  using assms by (simp add: decode_encode usv_well_formed)

section \<open>Properties of the isolated context\<close>

subsection \<open>Sequencing, platform calls, and the outbox\<close>

lemma and_then_Inl: "m s = (Inl e, s1) \<Longrightarrow> and_then m k s = (Inl e, s1)"
  by (simp add: and_then_def)

lemma and_then_Inr: "m s = (Inr x, s1) \<Longrightarrow> and_then m k s = k x s1"
  by (simp add: and_then_def)

lemma and_then_assoc: "and_then (and_then m f) g = and_then m (\<lambda>x. and_then (f x) g)"
  by (rule ext) (simp add: and_then_def split: prod.splits sum.splits)

lemma and_then_ret [simp]: "and_then (ret x) k = k x"
  by (rule ext) (simp add: and_then_def ret_def)

lemma invoke_fault:
  "fault env c = Some n \<Longrightarrow>
     invoke env c body s = (Inl (PlatformError n (message_of env n)), s\<lparr>calls := calls s @ [c]\<rparr>)"
  by (simp add: invoke_def platform_throw_def throw_def)

lemma invoke_ok: "fault env c = None \<Longrightarrow> invoke env c body s = body (s\<lparr>calls := calls s @ [c]\<rparr>)"
  by (simp add: invoke_def)

lemma dispatch:
  assumes "m s = (res, s1)"
  shows "try_catch (and_then m (\<lambda>x. reply cid (f x))) (\<lambda>err. replyError cid err) s
         = (Inr (), post (envelope cid f res) s1)"
  using assms
  by (cases res)
     (simp_all add: try_catch_def and_then_def reply_def replyError_def ret_def post_def envelope_def)

lemma known_types_distinct: "distinct known_types"
  by (simp add: known_types_def js_def)

lemma keeps_outbox_basic [simp]:
  "keeps_outbox (ret x)" "keeps_outbox (throw e)" "keeps_outbox (platform_throw env n)"
  by (simp_all add: keeps_outbox_def ret_def throw_def platform_throw_def)

lemma keeps_outbox_and_then [simp]:
  assumes "keeps_outbox m" and "\<And>x. keeps_outbox (k x)"
  shows "keeps_outbox (and_then m k)"
  unfolding keeps_outbox_def
proof
  fix s
  obtain r s1 where m: "m s = (r, s1)" by (cases "m s")
  then have "outbox s1 = outbox s" using assms(1) unfolding keeps_outbox_def by (metis snd_conv)
  then show "outbox (snd (and_then m k s)) = outbox s"
    using m assms(2) unfolding keeps_outbox_def by (cases r) (simp_all add: and_then_def)
qed

lemma keeps_outbox_try_finally [simp]:
  assumes "keeps_outbox m" and "keeps_outbox fin"
  shows "keeps_outbox (try_finally m fin)"
  unfolding keeps_outbox_def
proof
  fix s
  obtain r s1 where m: "m s = (r, s1)" by (cases "m s")
  obtain r2 s2 where f: "fin s1 = (r2, s2)" by (cases "fin s1")
  have "outbox s1 = outbox s" using assms(1) m unfolding keeps_outbox_def by (metis snd_conv)
  moreover have "outbox s2 = outbox s1" using assms(2) f unfolding keeps_outbox_def by (metis snd_conv)
  ultimately show "outbox (snd (try_finally m fin s)) = outbox s"
    using m f by (cases r2) (simp_all add: try_finally_def)
qed

lemma keeps_outbox_invoke [simp]:
  assumes "keeps_outbox body"
  shows "keeps_outbox (invoke env c body)"
  using assms unfolding keeps_outbox_def
  by (simp add: invoke_def platform_throw_def throw_def Let_def split: option.splits)

lemma keeps_outbox_calls [simp]:
  "keeps_outbox (getDirectory env)" "keeps_outbox (persist env)" "keeps_outbox (encode env c)"
  "keeps_outbox (file_text env bs)"
  by (simp_all add: getDirectory_def persist_def encode_def file_text_def)

lemma keeps_outbox_state_calls [simp]:
  "keeps_outbox (dir_values env)" "keeps_outbox (getFileHandle env f b)"
  "keeps_outbox (createSyncAccessHandle env h)" "keeps_outbox (truncate env h n)"
  "keeps_outbox (write_at env h bs n)" "keeps_outbox (flush env h)" "keeps_outbox (close h)"
  "keeps_outbox (getFile env h)" "keeps_outbox (removeEntry env f)"
  by (simp_all add: keeps_outbox_def dir_values_def getFileHandle_def createSyncAccessHandle_def
      truncate_def write_at_def flush_def close_def getFile_def removeEntry_def invoke_def
      platform_throw_def throw_def ret_def Let_def split: option.splits entry.splits bool.splits)

lemma keeps_outbox_executor:
  "keeps_outbox (opfsInit env)" "keeps_outbox (opfsList env)" "keeps_outbox (opfsCreate env f c)"
  "keeps_outbox (opfsRead env f)" "keeps_outbox (opfsUpdate env f c)" "keeps_outbox (opfsDelete env f)"
  by (simp_all add: opfsInit_def opfsList_def opfsCreate_def opfsRead_def opfsUpdate_def
      opfsDelete_def)

lemma outbox_post: "keeps_outbox m \<Longrightarrow> outbox (post r (snd (m s))) = outbox s @ [r]"
  by (simp add: keeps_outbox_def post_def)

lemma response_id_envelope [simp]: "response_id (envelope cid f res) = cid"
  by (cases res) (simp_all add: envelope_def)

lemmas worker_defs =
  test_env_def empty_backend_def and_then_def try_finally_def try_catch_def ret_def throw_def
  getDirectory_def persist_def dir_values_def getFileHandle_def createSyncAccessHandle_def
  encode_def truncate_def write_at_def flush_def close_def getFile_def file_text_def
  removeEntry_def invoke_def platform_throw_def valid_file_name_def js_def set_file_def
  opfsInit_def opfsList_def opfsCreate_def opfsRead_def opfsUpdate_def opfsDelete_def
  onmessage_def reply_def replyError_def post_def envelope_def
  usv_def string_of_scalars_def code_units_def is_lead_def is_trail_def TextEncoder_encode_def
  utf8_bytes_def utf8_decode_def strip_bom_def startsWith_def Array_sort_def

lemma getDirectory_cases:
  "getDirectory env s =
     (if \<not> has_getDirectory env then (Inl (PlatformError TypeError (message_of env TypeError)), s)
      else case fault env GetDirectory of
             Some n \<Rightarrow> (Inl (PlatformError n (message_of env n)), called [GetDirectory] s)
           | None \<Rightarrow> (Inr (), called [GetDirectory] s))"
  by (simp add: getDirectory_def invoke_def platform_throw_def throw_def ret_def called_def
      split: option.splits)

lemma opfsInit_cases:
  "opfsInit env s =
     (if \<not> has_getDirectory env then (Inl unsupported, s)
      else if has_persist env then
        (case fault env Persist of
           Some n \<Rightarrow> (Inl (PlatformError n (message_of env n)), called [Persist] s)
         | None \<Rightarrow>
             (case fault env GetDirectory of
                Some n \<Rightarrow> (Inl (PlatformError n (message_of env n)), called [Persist, GetDirectory] s)
              | None \<Rightarrow> (Inr (), called [Persist, GetDirectory] s)))
      else
        (case fault env GetDirectory of
           Some n \<Rightarrow> (Inl (PlatformError n (message_of env n)), called [GetDirectory] s)
         | None \<Rightarrow> (Inr (), called [GetDirectory] s)))"
  by (simp add: opfsInit_def unsupported_def throw_def and_then_def ret_def persist_def invoke_def
      platform_throw_def getDirectory_cases called_def Let_def split: option.splits)

lemma map_of_filter_out: "map_of (filter (\<lambda>(n, e). n \<noteq> k) es) k = None"
  by (induction es) auto

lemma getFileHandle_absent:
  assumes "map_of (entries s) (usv f) = None"
  shows "getFileHandle env f False s =
     (case fault env (GetFileHandle f False) of
        Some n \<Rightarrow> (Inl (PlatformError n (message_of env n)), called [GetFileHandle f False] s)
      | None \<Rightarrow>
          if valid_file_name (usv f) then (Inl (not_found env), called [GetFileHandle f False] s)
          else (Inl (PlatformError TypeError (message_of env TypeError)),
                called [GetFileHandle f False] s))"
  using assms
  by (simp add: getFileHandle_def invoke_def platform_throw_def throw_def called_def not_found_def
      split: option.splits)

lemma removeEntry_absent:
  assumes "map_of (entries s) (usv f) = None"
  shows "removeEntry env f s =
     (case fault env (RemoveEntry f) of
        Some n \<Rightarrow> (Inl (PlatformError n (message_of env n)), called [RemoveEntry f] s)
      | None \<Rightarrow>
          if valid_file_name (usv f) then (Inl (not_found env), called [RemoveEntry f] s)
          else (Inl (PlatformError TypeError (message_of env TypeError)),
                called [RemoveEntry f] s))"
  using assms
  by (simp add: removeEntry_def invoke_def platform_throw_def throw_def called_def not_found_def
      split: option.splits)

lemma called_fields [simp]:
  "entries (called cs s) = entries s" "locked (called cs s) = locked s"
  "outbox (called cs s) = outbox s" "calls (called cs s) = calls s @ cs"
  by (simp_all add: called_def)

lemma read_absent:
  assumes "map_of (entries s) (usv f) = None"
  shows "isl (fst (opfsRead env f s))" "entries (snd (opfsRead env f s)) = entries s"
    "locked (snd (opfsRead env f s)) = locked s"
    "has_getDirectory env \<Longrightarrow> fault env GetDirectory = None \<Longrightarrow>
       fault env (GetFileHandle f False) = None \<Longrightarrow> valid_file_name (usv f) \<Longrightarrow>
       fst (opfsRead env f s) = Inl (not_found env)"
  using assms
  by (simp_all add: opfsRead_def and_then_def getDirectory_cases getFileHandle_absent
      split: option.splits)

lemma update_absent:
  assumes "map_of (entries s) (usv f) = None"
  shows "isl (fst (opfsUpdate env f c s))" "entries (snd (opfsUpdate env f c s)) = entries s"
    "locked (snd (opfsUpdate env f c s)) = locked s"
    "has_getDirectory env \<Longrightarrow> fault env GetDirectory = None \<Longrightarrow>
       fault env (GetFileHandle f False) = None \<Longrightarrow> valid_file_name (usv f) \<Longrightarrow>
       fst (opfsUpdate env f c s) = Inl (not_found env)"
  using assms
  by (simp_all add: opfsUpdate_def and_then_def getDirectory_cases getFileHandle_absent
      split: option.splits)

lemma delete_absent:
  assumes "map_of (entries s) (usv f) = None"
  shows "isl (fst (opfsDelete env f s))" "entries (snd (opfsDelete env f s)) = entries s"
    "locked (snd (opfsDelete env f s)) = locked s"
    "has_getDirectory env \<Longrightarrow> fault env GetDirectory = None \<Longrightarrow>
       fault env (RemoveEntry f) = None \<Longrightarrow> valid_file_name (usv f) \<Longrightarrow>
       fst (opfsDelete env f s) = Inl (not_found env)"
  using assms
  by (simp_all add: opfsDelete_def and_then_def getDirectory_cases removeEntry_absent
      split: option.splits)

lemma removeEntry_cases:
  "removeEntry env f s =
     (case fault env (RemoveEntry f) of
        Some n \<Rightarrow> (Inl (PlatformError n (message_of env n)), called [RemoveEntry f] s)
      | None \<Rightarrow>
          if \<not> valid_file_name (usv f)
          then (Inl (PlatformError TypeError (message_of env TypeError)), called [RemoveEntry f] s)
          else case map_of (entries s) (usv f) of
                 None \<Rightarrow> (Inl (not_found env), called [RemoveEntry f] s)
               | Some (DirectoryEntry True) \<Rightarrow>
                   (Inl (PlatformError InvalidModificationError
                          (message_of env InvalidModificationError)), called [RemoveEntry f] s)
               | Some e \<Rightarrow>
                   if usv f \<in> locked s
                   then (Inl (PlatformError NoModificationAllowedError
                          (message_of env NoModificationAllowedError)), called [RemoveEntry f] s)
                   else (Inr (), (called [RemoveEntry f] s)
                           \<lparr>entries := filter (\<lambda>(n, e). n \<noteq> usv f) (entries s)\<rparr>))"
  by (simp add: removeEntry_def invoke_def platform_throw_def throw_def ret_def called_def
      not_found_def Let_def split: option.splits entry.splits bool.splits)

lemma removeEntry_success:
  assumes "removeEntry env f s = (Inr u, s1)"
  shows "map_of (entries s1) (usv f) = None" and "valid_file_name (usv f)"
    and "locked s1 = locked s"
proof -
  have v: "valid_file_name (usv f)"
    using assms by (auto simp: removeEntry_cases split: option.splits if_splits)
  have "s1 = (called [RemoveEntry f] s)\<lparr>entries := filter (\<lambda>(n, e). n \<noteq> usv f) (entries s)\<rparr>"
    using assms v
    by (simp add: removeEntry_cases split: option.splits if_splits entry.splits bool.splits)
  then show "map_of (entries s1) (usv f) = None" "locked s1 = locked s"
    by (simp_all add: map_of_filter_out)
  show "valid_file_name (usv f)" by (rule v)
qed

lemma delete_success:
  assumes "fst (opfsDelete env f s) = Inr u"
  shows "map_of (entries (snd (opfsDelete env f s))) (usv f) = None"
    and "valid_file_name (usv f)" and "has_getDirectory env" and "fault env GetDirectory = None"
    and "locked (snd (opfsDelete env f s)) = locked s"
proof -
  have g: "has_getDirectory env" "fault env GetDirectory = None"
    using assms
    by (auto simp: opfsDelete_def and_then_def getDirectory_cases split: option.splits if_splits)
  then have d: "opfsDelete env f s = removeEntry env f (called [GetDirectory] s)"
    by (simp add: opfsDelete_def and_then_def getDirectory_cases)
  obtain s1 where s1: "removeEntry env f (called [GetDirectory] s) = (Inr u, s1)"
    using assms unfolding d by (cases "removeEntry env f (called [GetDirectory] s)") simp
  show "map_of (entries (snd (opfsDelete env f s))) (usv f) = None"
    and "valid_file_name (usv f)" and "locked (snd (opfsDelete env f s)) = locked s"
    using removeEntry_success [OF s1] by (simp_all add: d s1)
  show "has_getDirectory env" "fault env GetDirectory = None" by (rule g)+
qed

lemma opfsCreate_acquire:
  "opfsCreate env f c = and_then (acquire env f True) (\<lambda>h. and_then (write_block env h c) (\<lambda>u. ret f))"
  by (simp add: opfsCreate_def acquire_def write_block_def and_then_assoc)

lemma opfsUpdate_acquire:
  "opfsUpdate env f c = and_then (acquire env f False) (\<lambda>h. write_block env h c)"
  by (simp add: opfsUpdate_def acquire_def write_block_def and_then_assoc)

lemma map_of_set_file:
  "map_of (set_file h bs es) n =
     (if n = h \<and> map_of es h \<noteq> None then Some (FileEntry bs) else map_of es n)"
  by (induction es) (auto simp: set_file_def)

lemma set_file_twice: "set_file h b2 (set_file h b1 es) = set_file h b2 es"
  by (induction es) (auto simp: set_file_def)

lemma encode_run:
  "encode env c s =
     (case fault env (Encode c) of
        Some n \<Rightarrow> (Inl (PlatformError n (message_of env n)), called [Encode c] s)
      | None \<Rightarrow> (Inr (TextEncoder_encode c), called [Encode c] s))"
  by (simp add: encode_def invoke_def platform_throw_def throw_def ret_def called_def Let_def
      split: option.splits)

lemma truncate_run:
  assumes "h \<in> locked s" "map_of (entries s) h = Some (FileEntry old)"
  shows "truncate env h 0 s =
     (case fault env (Truncate h 0) of
        Some n \<Rightarrow> (Inl (PlatformError n (message_of env n)), called [Truncate h 0] s)
      | None \<Rightarrow> (Inr (), (called [Truncate h 0] s)\<lparr>entries := set_file h [] (entries s)\<rparr>))"
  using assms
  by (simp add: truncate_def invoke_def platform_throw_def throw_def ret_def called_def Let_def
      split: option.splits)

lemma write_run:
  assumes "h \<in> locked s" "map_of (entries s) h = Some (FileEntry [])"
  shows "write_at env h bs 0 s =
     (case fault env (Write h bs 0) of
        Some n \<Rightarrow> (Inl (PlatformError n (message_of env n)), called [Write h bs 0] s)
      | None \<Rightarrow> (Inr (length bs), (called [Write h bs 0] s)\<lparr>entries := set_file h bs (entries s)\<rparr>))"
  using assms
  by (simp add: write_at_def invoke_def platform_throw_def throw_def ret_def called_def Let_def
      split: option.splits)

lemma flush_run:
  assumes "h \<in> locked s"
  shows "flush env h s =
     (case fault env (Flush h) of
        Some n \<Rightarrow> (Inl (PlatformError n (message_of env n)), called [Flush h] s)
      | None \<Rightarrow> (Inr (), called [Flush h] s))"
  using assms
  by (simp add: flush_def invoke_def platform_throw_def throw_def ret_def called_def Let_def
      split: option.splits)

lemma close_run: "close h s = (Inr (), (called [Close h] s)\<lparr>locked := locked s - {h}\<rparr>)"
  by (simp add: close_def ret_def called_def)

lemma called_called [simp]: "called cs (called bs s) = called (bs @ cs) s"
  by (simp add: called_def)

lemma called_entries_update [simp]:
  "called cs (s\<lparr>entries := es\<rparr>) = (called cs s)\<lparr>entries := es\<rparr>"
  by (simp add: called_def)

lemma write_block_run:
  assumes "h \<in> locked s" "map_of (entries s) h = Some (FileEntry old)"
  shows "fst (write_block env h c s) =
           (case first_fault env (write_path h c) of
              Some n \<Rightarrow> Inl (PlatformError n (message_of env n)) | None \<Rightarrow> Inr ())"
    and "calls (snd (write_block env h c s)) = calls s @ upto_fault env (write_path h c) @ [Close h]"
    and "locked (snd (write_block env h c s)) = locked s - {h}"
    and "outbox (snd (write_block env h c s)) = outbox s"
    and "first_fault env (write_path h c) = None \<Longrightarrow>
           entries (snd (write_block env h c s)) = set_file h (TextEncoder_encode c) (entries s)"
    and "map_of (entries (snd (write_block env h c s))) n =
           (if n = h then map_of (entries (snd (write_block env h c s))) h else map_of (entries s) n)"
proof -
  let ?enc = "TextEncoder_encode c"
  let ?s1 = "called [Encode c] s"
  let ?s2 = "(called [Encode c, Truncate h 0] s)\<lparr>entries := set_file h [] (entries s)\<rparr>"
  have t: "truncate env h 0 ?s1 =
     (case fault env (Truncate h 0) of
        Some n \<Rightarrow> (Inl (PlatformError n (message_of env n)), called [Encode c, Truncate h 0] s)
      | None \<Rightarrow> (Inr (), ?s2))"
    using truncate_run [of h ?s1 old env] assms by (simp split: option.splits)
  have w: "write_at env h ?enc 0 ?s2 =
     (case fault env (Write h ?enc 0) of
        Some n \<Rightarrow> (Inl (PlatformError n (message_of env n)),
                    (called [Encode c, Truncate h 0, Write h ?enc 0] s)
                      \<lparr>entries := set_file h [] (entries s)\<rparr>)
      | None \<Rightarrow> (Inr (length ?enc),
                  (called [Encode c, Truncate h 0, Write h ?enc 0] s)
                    \<lparr>entries := set_file h ?enc (entries s)\<rparr>))"
    using write_run [of h ?s2 env ?enc] assms
    by (simp add: map_of_set_file set_file_twice split: option.splits)
  have f: "flush env h ((called [Encode c, Truncate h 0, Write h ?enc 0] s)
                    \<lparr>entries := set_file h ?enc (entries s)\<rparr>) =
     (case fault env (Flush h) of
        Some n \<Rightarrow> (Inl (PlatformError n (message_of env n)),
                    (called [Encode c, Truncate h 0, Write h ?enc 0, Flush h] s)
                      \<lparr>entries := set_file h ?enc (entries s)\<rparr>)
      | None \<Rightarrow> (Inr (),
                  (called [Encode c, Truncate h 0, Write h ?enc 0, Flush h] s)
                    \<lparr>entries := set_file h ?enc (entries s)\<rparr>))"
    using flush_run [of h "(called [Encode c, Truncate h 0, Write h ?enc 0] s)
                    \<lparr>entries := set_file h ?enc (entries s)\<rparr>" env] assms
    by (simp split: option.splits)
  have all: "fst (write_block env h c s) =
           (case first_fault env (write_path h c) of
              Some n \<Rightarrow> Inl (PlatformError n (message_of env n)) | None \<Rightarrow> Inr ())
    \<and> calls (snd (write_block env h c s)) = calls s @ upto_fault env (write_path h c) @ [Close h]
    \<and> locked (snd (write_block env h c s)) = locked s - {h}
    \<and> outbox (snd (write_block env h c s)) = outbox s
    \<and> (first_fault env (write_path h c) = None \<longrightarrow>
           entries (snd (write_block env h c s)) = set_file h (TextEncoder_encode c) (entries s))
    \<and> (\<exists>bs. entries (snd (write_block env h c s)) = entries s
             \<or> entries (snd (write_block env h c s)) = set_file h bs (entries s))"
  proof (cases "fault env (Encode c)")
    case (Some n)
    then show ?thesis
      by (simp add: write_block_def try_finally_def and_then_def encode_run close_run
          write_path_def)
  next
    case e: None
    show ?thesis
    proof (cases "fault env (Truncate h 0)")
      case (Some n)
      then show ?thesis using e
        by (simp add: write_block_def try_finally_def and_then_def encode_run t close_run
            write_path_def)
    next
      case tr: None
      show ?thesis
      proof (cases "fault env (Write h ?enc 0)")
        case (Some n)
        then show ?thesis using e tr
          by (auto simp: write_block_def try_finally_def and_then_def encode_run t w close_run
              write_path_def)
      next
        case wr: None
        show ?thesis
        proof (cases "fault env (Flush h)")
          case (Some n)
          then show ?thesis using e tr wr
            by (auto simp: write_block_def try_finally_def and_then_def encode_run t w f close_run
                write_path_def)
        next
          case None
          then show ?thesis using e tr wr
            by (auto simp: write_block_def try_finally_def and_then_def encode_run t w f close_run
                write_path_def)
        qed
      qed
    qed
  qed
  then show "fst (write_block env h c s) =
           (case first_fault env (write_path h c) of
              Some n \<Rightarrow> Inl (PlatformError n (message_of env n)) | None \<Rightarrow> Inr ())"
    and "calls (snd (write_block env h c s)) = calls s @ upto_fault env (write_path h c) @ [Close h]"
    and "locked (snd (write_block env h c s)) = locked s - {h}"
    and "outbox (snd (write_block env h c s)) = outbox s"
    by simp_all
  show "first_fault env (write_path h c) = None \<Longrightarrow>
           entries (snd (write_block env h c s)) = set_file h (TextEncoder_encode c) (entries s)"
    using all by simp
  from all obtain bs where "entries (snd (write_block env h c s)) = entries s
             \<or> entries (snd (write_block env h c s)) = set_file h bs (entries s)" by blast
  then show "map_of (entries (snd (write_block env h c s))) n =
           (if n = h then map_of (entries (snd (write_block env h c s))) h else map_of (entries s) n)"
    by (auto simp: map_of_set_file)
qed

lemma getFileHandle_Inr:
  assumes "getFileHandle env f create s = (Inr h, s1)"
  shows "h = usv f" and "valid_file_name (usv f)" and "fault env (GetFileHandle f create) = None"
    and "locked s1 = locked s" and "calls s1 = calls s @ [GetFileHandle f create]"
    and "\<exists>bs. map_of (entries s1) h = Some (FileEntry bs)"
    and "\<And>n. n \<noteq> h \<Longrightarrow> map_of (entries s1) n = map_of (entries s) n"
  using assms
  by (auto simp: getFileHandle_def invoke_def platform_throw_def throw_def ret_def Let_def
      map_add_def split: option.splits if_splits entry.splits)

lemma getFileHandle_Inl:
  assumes "getFileHandle env f create s = (Inl e, s1)"
  shows "locked s1 = locked s" and "entries s1 = entries s"
  using assms
  by (auto simp: getFileHandle_def invoke_def platform_throw_def throw_def ret_def Let_def
      split: option.splits if_splits entry.splits)

lemma createSyncAccessHandle_Inr:
  assumes "createSyncAccessHandle env h s = (Inr h', s1)"
  shows "h' = h" and "h \<notin> locked s" and "locked s1 = insert h (locked s)"
    and "entries s1 = entries s" and "calls s1 = calls s @ [CreateSyncAccessHandle h]"
    and "\<exists>bs. map_of (entries s) h = Some (FileEntry bs)"
  using assms
  by (auto simp: createSyncAccessHandle_def invoke_def platform_throw_def throw_def ret_def Let_def
      split: option.splits if_splits entry.splits)

lemma createSyncAccessHandle_Inl:
  assumes "createSyncAccessHandle env h s = (Inl e, s1)"
  shows "locked s1 = locked s" and "entries s1 = entries s"
  using assms
  by (auto simp: createSyncAccessHandle_def invoke_def platform_throw_def throw_def ret_def Let_def
      split: option.splits if_splits entry.splits)

lemma acquire_steps:
  "acquire env f create s =
     (if has_getDirectory env \<and> fault env GetDirectory = None
      then (case getFileHandle env f create (called [GetDirectory] s) of
              (Inl e, s0) \<Rightarrow> (Inl e, s0)
            | (Inr h, s0) \<Rightarrow> createSyncAccessHandle env h s0)
      else (Inl (projl (fst (getDirectory env s))), snd (getDirectory env s)))"
  by (auto simp: acquire_def and_then_def getDirectory_cases split: option.splits)

lemma getDirectory_locked:
  "locked (snd (getDirectory env s)) = locked s" "entries (snd (getDirectory env s)) = entries s"
  "isl (fst (getDirectory env s)) \<longleftrightarrow> \<not> (has_getDirectory env \<and> fault env GetDirectory = None)"
  by (simp_all add: getDirectory_cases split: option.splits)

lemma acquire_Inr:
  assumes "acquire env f create s = (Inr h, s1)"
  shows "h = usv f" and "has_getDirectory env" and "fault env GetDirectory = None"
    and "valid_file_name (usv f)" and "fault env (GetFileHandle f create) = None"
    and "h \<notin> locked s" and "locked s1 = insert h (locked s)"
    and "\<exists>bs. map_of (entries s1) h = Some (FileEntry bs)"
    and "calls s1 = calls s @ [GetDirectory, GetFileHandle f create, CreateSyncAccessHandle h]"
    and "\<And>n. n \<noteq> h \<Longrightarrow> map_of (entries s1) n = map_of (entries s) n"
proof -
  have g: "has_getDirectory env \<and> fault env GetDirectory = None"
  proof (rule ccontr)
    assume n: "\<not> ?thesis"
    have "acquire env f create s
        = (Inl (projl (fst (getDirectory env s))), snd (getDirectory env s))"
      unfolding acquire_steps by (rule if_not_P [OF n])
    then show False using assms by simp
  qed
  obtain r0 s0 where fh: "getFileHandle env f create (called [GetDirectory] s) = (r0, s0)"
    by (cases "getFileHandle env f create (called [GetDirectory] s)")
  obtain h0 where r0: "r0 = Inr h0" and cs: "createSyncAccessHandle env h0 s0 = (Inr h, s1)"
    using assms g fh by (cases r0) (simp_all add: acquire_steps)
  note a = getFileHandle_Inr [OF fh [unfolded r0]]
  note b = createSyncAccessHandle_Inr [OF cs]
  show "h = usv f" using a(1) b(1) by simp
  show "has_getDirectory env" "fault env GetDirectory = None" using g by simp_all
  show "valid_file_name (usv f)" by (rule a(2))
  show "fault env (GetFileHandle f create) = None" by (rule a(3))
  show "h \<notin> locked s" using a(4) b(1,2) by simp
  show "locked s1 = insert h (locked s)" using a(4) b(1,3) by simp
  show "\<exists>bs. map_of (entries s1) h = Some (FileEntry bs)" using b(1,4,6) by simp
  show "calls s1 = calls s @ [GetDirectory, GetFileHandle f create, CreateSyncAccessHandle h]"
    using a(5) b(1,5) by simp
  show "\<And>n. n \<noteq> h \<Longrightarrow> map_of (entries s1) n = map_of (entries s) n"
    using a(7) b(1,4) by simp
qed

lemma acquire_Inl:
  assumes "acquire env f create s = (Inl e, s1)"
  shows "locked s1 = locked s"
proof (cases "has_getDirectory env \<and> fault env GetDirectory = None")
  case False
  have "acquire env f create s
      = (Inl (projl (fst (getDirectory env s))), snd (getDirectory env s))"
    unfolding acquire_steps by (rule if_not_P [OF False])
  then show ?thesis using assms getDirectory_locked(1) [of env s] by simp
next
  case True
  obtain r0 s0 where fh: "getFileHandle env f create (called [GetDirectory] s) = (r0, s0)"
    by (cases "getFileHandle env f create (called [GetDirectory] s)")
  show ?thesis
  proof (cases r0)
    case (Inl e0)
    then have "s1 = s0" using assms True fh by (simp add: acquire_steps)
    then show ?thesis using getFileHandle_Inl(1) [OF fh [unfolded Inl]] by simp
  next
    case (Inr h0)
    then have cs: "createSyncAccessHandle env h0 s0 = (Inl e, s1)"
      using assms True fh by (simp add: acquire_steps)
    show ?thesis
      using createSyncAccessHandle_Inl(1) [OF cs] getFileHandle_Inr(4) [OF fh [unfolded Inr]]
      by simp
  qed
qed

lemma overwrite_locked:
  assumes "m = and_then (acquire env f create) (\<lambda>h. and_then (write_block env h c) k)"
    and "\<And>u s. locked (snd (k u s)) = locked s"
  shows "locked (snd (m s)) = locked s"
proof -
  obtain r s1 where a: "acquire env f create s = (r, s1)" by (cases "acquire env f create s")
  show ?thesis
  proof (cases r)
    case (Inl e)
    then show ?thesis using a acquire_Inl [OF a [unfolded Inl]]
      by (simp add: assms(1) and_then_def)
  next
    case (Inr h)
    note q = acquire_Inr [OF a [unfolded Inr]]
    obtain bs where bs: "map_of (entries s1) h = Some (FileEntry bs)" using q(8) by blast
    have hl: "h \<in> locked s1" using q(7) by simp
    obtain r2 s2 where w: "write_block env h c s1 = (r2, s2)" by (cases "write_block env h c s1")
    have "locked s2 = locked s1 - {h}" using write_block_run(3) [OF hl bs, of env c] w by simp
    then have l2: "locked s2 = locked s" using q(6,7) by auto
    show ?thesis
      using a Inr w l2 assms(2) by (cases r2) (simp_all add: assms(1) and_then_def)
  qed
qed

lemma and_then_unit: "and_then m ret = m"
  by (rule ext) (simp add: and_then_def ret_def split: prod.splits sum.splits)

lemma overwrite_acquired:
  assumes "acquire env f create s = (Inr h, s1)"
  shows "\<exists>old. h \<in> locked s1 \<and> map_of (entries s1) h = Some (FileEntry old)"
  using acquire_Inr(7,8) [OF assms] by auto

lemma opfsCreate_overwrite: "opfsCreate env f c = overwrite env f True c f"
  by (simp add: opfsCreate_acquire overwrite_def)

lemma opfsUpdate_overwrite: "opfsUpdate env f c = overwrite env f False c ()"
  by (simp add: opfsUpdate_acquire overwrite_def and_then_unit)

lemma no_fault_upto: "first_fault env cs = None \<Longrightarrow> upto_fault env cs = cs"
  by (induction cs) (auto split: option.splits)

lemma overwrite_not_acquired:
  "acquire env f create s = (Inl e, s1) \<Longrightarrow> overwrite env f create c v s = (Inl e, s1)"
  by (simp add: overwrite_def and_then_def)

lemma overwrite_acquired_run:
  assumes a: "acquire env f create s = (Inr h, s1)"
  shows "fst (overwrite env f create c v s) =
           (case first_fault env (write_path h c) of
              Some n \<Rightarrow> Inl (PlatformError n (message_of env n)) | None \<Rightarrow> Inr v)"
    and "snd (overwrite env f create c v s) = snd (write_block env h c s1)"
    and "calls (snd (overwrite env f create c v s))
           = calls s1 @ upto_fault env (write_path h c) @ [Close h]"
proof -
  obtain old where o: "h \<in> locked s1" "map_of (entries s1) h = Some (FileEntry old)"
    using overwrite_acquired [OF a] by blast
  obtain r2 s2 where w: "write_block env h c s1 = (r2, s2)" by (cases "write_block env h c s1")
  have r2: "r2 = (case first_fault env (write_path h c) of
              Some n \<Rightarrow> Inl (PlatformError n (message_of env n)) | None \<Rightarrow> Inr ())"
    using write_block_run(1) [OF o, of env c] w by simp
  have run: "overwrite env f create c v s =
      (case r2 of Inl e \<Rightarrow> (Inl e, s2) | Inr u \<Rightarrow> (Inr v, s2))"
    by (cases r2) (simp_all add: overwrite_def and_then_def a w ret_def)
  show "fst (overwrite env f create c v s) =
           (case first_fault env (write_path h c) of
              Some n \<Rightarrow> Inl (PlatformError n (message_of env n)) | None \<Rightarrow> Inr v)"
    unfolding run r2 by (simp split: option.splits)
  show s: "snd (overwrite env f create c v s) = snd (write_block env h c s1)"
    unfolding run w by (simp split: sum.splits)
  show "calls (snd (overwrite env f create c v s))
           = calls s1 @ upto_fault env (write_path h c) @ [Close h]"
    unfolding s by (rule write_block_run(2) [OF o])
qed

lemma overwrite_locked_same: "locked (snd (overwrite env f create c v s)) = locked s"
  by (rule overwrite_locked [of _ env f create c "\<lambda>u. ret v"])
     (simp_all add: overwrite_def ret_def)

lemma overwrite_success:
  assumes "fst (overwrite env f create c v s) = Inr r"
  shows "r = v" and "has_getDirectory env" and "fault env GetDirectory = None"
    and "valid_file_name (usv f)"
    and "map_of (entries (snd (overwrite env f create c v s))) (usv f)
           = Some (FileEntry (TextEncoder_encode c))"
    and "calls (snd (overwrite env f create c v s))
           = calls s @ [GetDirectory, GetFileHandle f create, CreateSyncAccessHandle (usv f),
                        Encode c, Truncate (usv f) 0, Write (usv f) (TextEncoder_encode c) 0,
                        Flush (usv f), Close (usv f)]"
    and "\<And>n. n \<noteq> usv f \<Longrightarrow>
           map_of (entries (snd (overwrite env f create c v s))) n = map_of (entries s) n"
proof -
  obtain ra s1 where a0: "acquire env f create s = (ra, s1)" by (cases "acquire env f create s")
  obtain h where ra: "ra = Inr h"
    using assms a0 overwrite_not_acquired [of env f create s _ s1 c v] by (cases ra) auto
  note a = a0 [unfolded ra]
  note q = acquire_Inr [OF a]
  note w = overwrite_acquired_run [OF a, of c v]
  obtain old where o: "h \<in> locked s1" "map_of (entries s1) h = Some (FileEntry old)"
    using overwrite_acquired [OF a] by blast
  have nf: "first_fault env (write_path h c) = None" and rv: "r = v"
    using assms w(1) by (auto split: option.splits)
  show "r = v" by (rule rv)
  show "has_getDirectory env" "fault env GetDirectory = None" "valid_file_name (usv f)"
    by (rule q(2) q(3) q(4))+
  have e: "entries (snd (overwrite env f create c v s)) = set_file h (TextEncoder_encode c) (entries s1)"
    unfolding w(2) by (rule write_block_run(5) [OF o nf])
  show "map_of (entries (snd (overwrite env f create c v s))) (usv f)
           = Some (FileEntry (TextEncoder_encode c))"
    unfolding e using o(2) q(1) by (simp add: map_of_set_file)
  show "calls (snd (overwrite env f create c v s))
           = calls s @ [GetDirectory, GetFileHandle f create, CreateSyncAccessHandle (usv f),
                        Encode c, Truncate (usv f) 0, Write (usv f) (TextEncoder_encode c) 0,
                        Flush (usv f), Close (usv f)]"
    unfolding w(3) no_fault_upto [OF nf] q(9) using q(1) by (simp add: write_path_def)
  show "\<And>n. n \<noteq> usv f \<Longrightarrow>
           map_of (entries (snd (overwrite env f create c v s))) n = map_of (entries s) n"
    unfolding e using q(1) q(10) by (simp add: map_of_set_file)
qed

lemma read_present:
  assumes "map_of (entries s) (usv f) = Some (FileEntry bs)" and "valid_file_name (usv f)"
    and "has_getDirectory env" and "fault env GetDirectory = None"
    and "fault env (GetFileHandle f False) = None" and "fault env (GetFile (usv f)) = None"
    and "fault env (Text bs) = None"
  shows "opfsRead env f s =
    (Inr (utf8_decode bs), called [GetDirectory, GetFileHandle f False, GetFile (usv f), Text bs] s)"
  using assms
  by (simp add: opfsRead_def and_then_def getDirectory_cases getFileHandle_def getFile_def
      file_text_def invoke_def ret_def called_def Let_def)

lemma list_loop_visible: "list_loop es names = names @ visible es"
  by (induction es names rule: list_loop.induct) (simp_all add: visible_def)

lemma set_insert_by [simp]: "set (insert_by cmp x ys) = insert x (set ys)"
  by (induction ys) auto

lemma count_insert_by: "count_list (insert_by cmp x ys) z = count_list (x # ys) z"
  by (induction ys) auto

lemma sorted_insert_by:
  assumes "consistent cmp" and "sorted_wrt (\<lambda>a b. cmp a b \<le> 0) ys"
  shows "sorted_wrt (\<lambda>a b. cmp a b \<le> 0) (insert_by cmp x ys)"
  using assms(2)
proof (induction ys)
  case Nil
  then show ?case by simp
next
  case (Cons y ys)
  have tot: "\<And>a b. \<not> cmp a b \<le> 0 \<Longrightarrow> cmp b a \<le> 0"
    and tr: "\<And>a b c. cmp a b \<le> 0 \<Longrightarrow> cmp b c \<le> 0 \<Longrightarrow> cmp a c \<le> 0"
    using assms(1) unfolding consistent_def by blast+
  show ?case
  proof (cases "cmp x y \<le> 0")
    case True
    then have "\<forall>z \<in> set ys. cmp x z \<le> 0" using Cons.prems tr by auto
    then show ?thesis using True Cons.prems by simp
  next
    case False
    then have "cmp y x \<le> 0" by (rule tot)
    then show ?thesis using False Cons by simp
  qed
qed

lemma set_Array_sort: "set (Array_sort cmp xs) = set xs"
  by (induction xs) (simp_all add: Array_sort_def)

lemma count_Array_sort: "count_list (Array_sort cmp xs) z = count_list xs z"
  by (induction xs) (simp_all add: Array_sort_def count_insert_by)

lemma sorted_Array_sort:
  "consistent cmp \<Longrightarrow> sorted_wrt (\<lambda>a b. cmp a b \<le> 0) (Array_sort cmp xs)"
  by (induction xs) (simp_all add: Array_sort_def sorted_insert_by)

lemma set_visible:
  "set (visible es) = {n. \<exists>e. (n, e) \<in> set es \<and> is_file e \<and> \<not> startsWith n (js ''.'')}"
  by (auto simp: visible_def image_iff)

lemma opfsList_run:
  assumes "has_getDirectory env" "fault env GetDirectory = None" "fault env Values = None"
  shows "opfsList env s =
    (Inr (Array_sort (localeCompare env) (visible (entries s))), called [GetDirectory, Values] s)"
  using assms
  by (simp add: opfsList_def and_then_def getDirectory_cases dir_values_def invoke_def ret_def
      called_def list_loop_visible Let_def)

lemma compare_units_total: "compare_units a b \<le> 0 \<or> compare_units b a \<le> 0"
  by (induction a b rule: compare_units.induct) auto

lemma compare_units_trans:
  "compare_units a b \<le> 0 \<Longrightarrow> compare_units b c \<le> 0 \<Longrightarrow> compare_units a c \<le> 0"
proof (induction a b arbitrary: c rule: compare_units.induct)
  case 1
  then show ?case by simp
next
  case (2 b bs)
  then show ?case by (cases c) simp_all
next
  case (3 a as)
  then show ?case by simp
next
  case (4 a as b bs)
  then show ?case by (cases c) (auto split: if_splits)
qed

lemma consistent_compare_units: "consistent compare_units"
  unfolding consistent_def using compare_units_total compare_units_trans by blast

subsection \<open>The dispatcher\<close>

text \<open>
  Claim C1. For every inbound envelope the handler returns normally (no exception
  escapes it) and posts exactly one Result Envelope, whose correlation id is the
  request's. For each of the six recognised types the state is the one the executor
  function leaves, plus that envelope: a success envelope with the payload when the
  executor returned, a failure envelope with the message when it threw. For a type that
  is none of the six, nothing is executed and the envelope is a failure whose text is
  ``Unknown message type: '' followed by the discriminator. The message of a failure is
  the \<open>message\<close> of a thrown Error object, and the string form of any other thrown value.
\<close>

theorem one_result_envelope:
  "fst (onmessage env data s) = Inr ()
   \<and> (\<exists>r. outbox (snd (onmessage env data s)) = outbox s @ [r]
          \<and> response_id r = correlationId data)
   \<and> (rtype data = js ''init'' \<longrightarrow>
        snd (onmessage env data s)
        = post (envelope (correlationId data) (\<lambda>u. Undefined) (fst (opfsInit env s)))
            (snd (opfsInit env s)))
   \<and> (rtype data = js ''list'' \<longrightarrow>
        snd (onmessage env data s)
        = post (envelope (correlationId data) StrArray (fst (opfsList env s)))
            (snd (opfsList env s)))
   \<and> (rtype data = js ''create'' \<longrightarrow>
        snd (onmessage env data s)
        = post (envelope (correlationId data) Str
                 (fst (opfsCreate env (fileName data) (content data) s)))
            (snd (opfsCreate env (fileName data) (content data) s)))
   \<and> (rtype data = js ''read'' \<longrightarrow>
        snd (onmessage env data s)
        = post (envelope (correlationId data) Str (fst (opfsRead env (fileName data) s)))
            (snd (opfsRead env (fileName data) s)))
   \<and> (rtype data = js ''update'' \<longrightarrow>
        snd (onmessage env data s)
        = post (envelope (correlationId data) (\<lambda>u. Undefined)
                 (fst (opfsUpdate env (fileName data) (content data) s)))
            (snd (opfsUpdate env (fileName data) (content data) s)))
   \<and> (rtype data = js ''delete'' \<longrightarrow>
        snd (onmessage env data s)
        = post (envelope (correlationId data) (\<lambda>u. Undefined)
                 (fst (opfsDelete env (fileName data) s)))
            (snd (opfsDelete env (fileName data) s)))
   \<and> (rtype data \<notin> set known_types \<longrightarrow>
        snd (onmessage env data s)
        = post (Failure (correlationId data) (js ''Unknown message type: '' @ rtype data)) s)
   \<and> envelope (correlationId data) f (Inr x) = Success (correlationId data) (f x)
   \<and> envelope (correlationId data) f (Inl (Error m)) = Failure (correlationId data) m
   \<and> envelope (correlationId data) f (Inl (PlatformError n m)) = Failure (correlationId data) m
   \<and> envelope (correlationId data) f (Inl (NonError v)) = Failure (correlationId data) v"
proof -
  have d: "js ''init'' \<noteq> js ''list''" "js ''init'' \<noteq> js ''create''" "js ''init'' \<noteq> js ''read''"
    "js ''init'' \<noteq> js ''update''" "js ''init'' \<noteq> js ''delete''" "js ''list'' \<noteq> js ''create''"
    "js ''list'' \<noteq> js ''read''" "js ''list'' \<noteq> js ''update''" "js ''list'' \<noteq> js ''delete''"
    "js ''create'' \<noteq> js ''read''" "js ''create'' \<noteq> js ''update''" "js ''create'' \<noteq> js ''delete''"
    "js ''read'' \<noteq> js ''update''" "js ''read'' \<noteq> js ''delete''" "js ''update'' \<noteq> js ''delete''"
    by (simp_all add: js_def)
  have unknown: "try_catch (replyError cid (NonError v)) (\<lambda>err. replyError cid err) s
      = (Inr (), post (Failure cid v) s)" for cid v
    by (simp add: try_catch_def replyError_def ret_def post_def)
  have i: "rtype data = js ''init'' \<Longrightarrow> onmessage env data s
      = (Inr (), post (envelope (correlationId data) (\<lambda>u. Undefined) (fst (opfsInit env s)))
            (snd (opfsInit env s)))"
    unfolding onmessage_def
    using dispatch [of "opfsInit env" s "fst (opfsInit env s)" "snd (opfsInit env s)"
        "correlationId data" "\<lambda>u. Undefined"]
    by simp
  have l: "rtype data = js ''list'' \<Longrightarrow> onmessage env data s
      = (Inr (), post (envelope (correlationId data) StrArray (fst (opfsList env s)))
            (snd (opfsList env s)))"
    unfolding onmessage_def
    using dispatch [of "opfsList env" s "fst (opfsList env s)" "snd (opfsList env s)"
        "correlationId data" StrArray] d
    by simp
  have c: "rtype data = js ''create'' \<Longrightarrow> onmessage env data s
      = (Inr (), post (envelope (correlationId data) Str
                 (fst (opfsCreate env (fileName data) (content data) s)))
            (snd (opfsCreate env (fileName data) (content data) s)))"
    unfolding onmessage_def
    using dispatch [of "opfsCreate env (fileName data) (content data)" s
        "fst (opfsCreate env (fileName data) (content data) s)"
        "snd (opfsCreate env (fileName data) (content data) s)" "correlationId data" Str] d
    by simp
  have r: "rtype data = js ''read'' \<Longrightarrow> onmessage env data s
      = (Inr (), post (envelope (correlationId data) Str (fst (opfsRead env (fileName data) s)))
            (snd (opfsRead env (fileName data) s)))"
    unfolding onmessage_def
    using dispatch [of "opfsRead env (fileName data)" s
        "fst (opfsRead env (fileName data) s)"
        "snd (opfsRead env (fileName data) s)" "correlationId data" Str] d
    by simp
  have u: "rtype data = js ''update'' \<Longrightarrow> onmessage env data s
      = (Inr (), post (envelope (correlationId data) (\<lambda>u. Undefined)
                 (fst (opfsUpdate env (fileName data) (content data) s)))
            (snd (opfsUpdate env (fileName data) (content data) s)))"
    unfolding onmessage_def
    using dispatch [of "opfsUpdate env (fileName data) (content data)" s
        "fst (opfsUpdate env (fileName data) (content data) s)"
        "snd (opfsUpdate env (fileName data) (content data) s)" "correlationId data" "\<lambda>u. Undefined"] d
    by simp
  have dl: "rtype data = js ''delete'' \<Longrightarrow> onmessage env data s
      = (Inr (), post (envelope (correlationId data) (\<lambda>u. Undefined)
                 (fst (opfsDelete env (fileName data) s)))
            (snd (opfsDelete env (fileName data) s)))"
    unfolding onmessage_def
    using dispatch [of "opfsDelete env (fileName data)" s
        "fst (opfsDelete env (fileName data) s)"
        "snd (opfsDelete env (fileName data) s)" "correlationId data" "\<lambda>u. Undefined"] d
    by simp
  have k: "rtype data \<notin> set known_types \<Longrightarrow> onmessage env data s
      = (Inr (), post (Failure (correlationId data) (js ''Unknown message type: '' @ rtype data)) s)"
    unfolding onmessage_def known_types_def using unknown by simp
  have "rtype data \<in> set known_types \<or> rtype data \<notin> set known_types" by blast
  then have ok: "fst (onmessage env data s) = Inr ()"
    using i l c r u dl k unfolding known_types_def by auto
  have one: "\<exists>r. outbox (snd (onmessage env data s)) = outbox s @ [r]
          \<and> response_id r = correlationId data"
  proof (cases "rtype data \<in> set known_types")
    case True
    then consider "rtype data = js ''init''" | "rtype data = js ''list''"
      | "rtype data = js ''create''" | "rtype data = js ''read''" | "rtype data = js ''update''"
      | "rtype data = js ''delete''" unfolding known_types_def by auto
    then show ?thesis
      by cases (simp_all add: i l c r u dl outbox_post keeps_outbox_executor)
  next
    case False
    then show ?thesis by (simp add: k post_def)
  qed
  show ?thesis
    using ok one i l c r u dl k by (simp add: envelope_def)
qed

theorem one_result_envelope_witness:
  "rtype \<lparr>correlationId = js ''7'', rtype = js ''read'', fileName = js ''q'', content = []\<rparr>
     = js ''read''
   \<and> onmessage test_env
        \<lparr>correlationId = js ''7'', rtype = js ''read'', fileName = js ''q'', content = []\<rparr>
        empty_backend
      = (Inr (), empty_backend\<lparr>calls := [GetDirectory, GetFileHandle (js ''q'') False],
                                outbox := [Failure (js ''7'') (js ''failed'')]\<rparr>)
   \<and> outbox (snd (onmessage test_env
        \<lparr>correlationId = js ''8'', rtype = js ''bogus'', fileName = [], content = []\<rparr>
        empty_backend))
      = [Failure (js ''8'') (js ''Unknown message type: bogus'')]"
proof -
  have a: "onmessage test_env
        \<lparr>correlationId = js ''7'', rtype = js ''read'', fileName = js ''q'', content = []\<rparr>
        empty_backend
      = (Inr (), empty_backend\<lparr>calls := [GetDirectory, GetFileHandle (js ''q'') False],
                                outbox := [Failure (js ''7'') (js ''failed'')]\<rparr>)"
    by (simp add: worker_defs)
  let ?d = "\<lparr>correlationId = js ''8'', rtype = js ''bogus'', fileName = [], content = []\<rparr>"
  have b: "rtype ?d \<notin> set known_types" by (simp add: known_types_def js_def)
  have "rtype ?d \<notin> set known_types \<longrightarrow> snd (onmessage test_env ?d empty_backend)
      = post (Failure (correlationId ?d) (js ''Unknown message type: '' @ rtype ?d)) empty_backend"
    using one_result_envelope [of test_env ?d empty_backend "\<lambda>u. Undefined" "()" "[]" TypeError "[]"]
    by blast
  then have c: "snd (onmessage test_env ?d empty_backend)
      = post (Failure (correlationId ?d) (js ''Unknown message type: '' @ rtype ?d)) empty_backend"
    using b by blast
  have "outbox (snd (onmessage test_env ?d empty_backend))
      = [Failure (js ''8'') (js ''Unknown message type: bogus'')]"
    unfolding c by (simp add: post_def empty_backend_def js_def)
  then show ?thesis using a by simp
qed

subsection \<open>Initialisation\<close>

text \<open>
  Claim C8. \<open>opfsInit\<close> fails with its own ``not supported'' error exactly when
  \<open>getDirectory\<close> is absent, and then touches nothing. When it is present: if
  \<open>persist\<close> is absent it is skipped, if it is present it is called and what it resolves
  to (granted or not) is ignored; then the root directory is opened and the function
  returns with no payload, the platform calls themselves not failing.
\<close>

theorem init_capability:
  "(fst (opfsInit env s) = Inl unsupported \<longleftrightarrow> \<not> has_getDirectory env)
   \<and> (\<not> has_getDirectory env \<longrightarrow> snd (opfsInit env s) = s)
   \<and> (has_getDirectory env \<and> \<not> has_persist env \<and> fault env GetDirectory = None \<longrightarrow>
        opfsInit env s = (Inr (), called [GetDirectory] s))
   \<and> (has_getDirectory env \<and> has_persist env \<and> fault env Persist = None
        \<and> fault env GetDirectory = None \<longrightarrow>
        opfsInit env s = (Inr (), called [Persist, GetDirectory] s))"
  by (simp add: opfsInit_cases unsupported_def split: option.splits)

theorem init_capability_witness:
  "has_getDirectory test_env \<and> fault test_env GetDirectory = None
   \<and> opfsInit test_env empty_backend = (Inr (), called [GetDirectory] empty_backend)
   \<and> opfsInit (test_env\<lparr>has_persist := True\<rparr>) empty_backend
       = (Inr (), called [Persist, GetDirectory] empty_backend)
   \<and> opfsInit (test_env\<lparr>has_getDirectory := False\<rparr>) empty_backend
       = (Inl unsupported, empty_backend)"
proof -
  have a: "has_getDirectory test_env" "\<not> has_persist test_env" "fault test_env GetDirectory = None"
    by (simp_all add: test_env_def)
  have b: "has_getDirectory (test_env\<lparr>has_persist := True\<rparr>)"
    "has_persist (test_env\<lparr>has_persist := True\<rparr>)"
    "fault (test_env\<lparr>has_persist := True\<rparr>) Persist = None"
    "fault (test_env\<lparr>has_persist := True\<rparr>) GetDirectory = None"
    by (simp_all add: test_env_def)
  have c: "\<not> has_getDirectory (test_env\<lparr>has_getDirectory := False\<rparr>)" by simp
  show ?thesis
    using a b c init_capability [of test_env empty_backend]
      init_capability [of "test_env\<lparr>has_persist := True\<rparr>" empty_backend]
      init_capability [of "test_env\<lparr>has_getDirectory := False\<rparr>" empty_backend]
    by (metis prod.collapse)
qed

subsection \<open>Operations on a missing file\<close>

text \<open>
  Claim C7. When no entry of the store has the given name, \<open>opfsRead\<close>, \<open>opfsUpdate\<close>
  and \<open>opfsDelete\<close> each fail, and the entries and the locks of the store are as before.
  The failure is the not-found error when the name is a valid file name and the platform
  calls on the way (opening the root directory, and the handle acquisition or the
  removal) do not fail for a reason of their own. After a successful delete the entry is
  gone and a read of the same name fails with the not-found error.
\<close>

theorem missing_file_fails:
  "(map_of (entries s) (usv f) = None \<longrightarrow>
      isl (fst (opfsRead env f s)) \<and> isl (fst (opfsUpdate env f c s))
      \<and> isl (fst (opfsDelete env f s))
      \<and> entries (snd (opfsRead env f s)) = entries s
      \<and> entries (snd (opfsUpdate env f c s)) = entries s
      \<and> entries (snd (opfsDelete env f s)) = entries s
      \<and> locked (snd (opfsRead env f s)) = locked s
      \<and> locked (snd (opfsUpdate env f c s)) = locked s
      \<and> locked (snd (opfsDelete env f s)) = locked s)
   \<and> (map_of (entries s) (usv f) = None \<and> valid_file_name (usv f) \<and> has_getDirectory env
        \<and> fault env GetDirectory = None \<and> fault env (GetFileHandle f False) = None \<longrightarrow>
      fst (opfsRead env f s) = Inl (not_found env)
      \<and> fst (opfsUpdate env f c s) = Inl (not_found env))
   \<and> (map_of (entries s) (usv f) = None \<and> valid_file_name (usv f) \<and> has_getDirectory env
        \<and> fault env GetDirectory = None \<and> fault env (RemoveEntry f) = None \<longrightarrow>
      fst (opfsDelete env f s) = Inl (not_found env))
   \<and> (fst (opfsDelete env f s) = Inr () \<and> fault env (GetFileHandle f False) = None \<longrightarrow>
      map_of (entries (snd (opfsDelete env f s))) (usv f) = None
      \<and> fst (opfsRead env f (snd (opfsDelete env f s))) = Inl (not_found env))"
proof -
  have A: "map_of (entries s) (usv f) = None \<longrightarrow>
      isl (fst (opfsRead env f s)) \<and> isl (fst (opfsUpdate env f c s))
      \<and> isl (fst (opfsDelete env f s))
      \<and> entries (snd (opfsRead env f s)) = entries s
      \<and> entries (snd (opfsUpdate env f c s)) = entries s
      \<and> entries (snd (opfsDelete env f s)) = entries s
      \<and> locked (snd (opfsRead env f s)) = locked s
      \<and> locked (snd (opfsUpdate env f c s)) = locked s
      \<and> locked (snd (opfsDelete env f s)) = locked s"
    by (simp add: read_absent(1-3) update_absent(1-3) delete_absent(1-3))
  have B: "map_of (entries s) (usv f) = None \<and> valid_file_name (usv f) \<and> has_getDirectory env
        \<and> fault env GetDirectory = None \<and> fault env (GetFileHandle f False) = None \<longrightarrow>
      fst (opfsRead env f s) = Inl (not_found env)
      \<and> fst (opfsUpdate env f c s) = Inl (not_found env)"
    by (simp add: read_absent(4) update_absent(4))
  have C: "map_of (entries s) (usv f) = None \<and> valid_file_name (usv f) \<and> has_getDirectory env
        \<and> fault env GetDirectory = None \<and> fault env (RemoveEntry f) = None \<longrightarrow>
      fst (opfsDelete env f s) = Inl (not_found env)"
    by (simp add: delete_absent(4))
  have D: "fst (opfsDelete env f s) = Inr () \<and> fault env (GetFileHandle f False) = None \<longrightarrow>
      map_of (entries (snd (opfsDelete env f s))) (usv f) = None
      \<and> fst (opfsRead env f (snd (opfsDelete env f s))) = Inl (not_found env)"
  proof (intro impI, elim conjE)
    assume d: "fst (opfsDelete env f s) = Inr ()" and g: "fault env (GetFileHandle f False) = None"
    have none: "map_of (entries (snd (opfsDelete env f s))) (usv f) = None"
      by (rule delete_success(1) [OF d])
    have "fst (opfsRead env f (snd (opfsDelete env f s))) = Inl (not_found env)"
      by (rule read_absent(4) [OF none delete_success(3) [OF d] delete_success(4) [OF d] g
            delete_success(2) [OF d]])
    then show "map_of (entries (snd (opfsDelete env f s))) (usv f) = None
      \<and> fst (opfsRead env f (snd (opfsDelete env f s))) = Inl (not_found env)"
      using none by (rule conjI [rotated])
  qed
  show ?thesis by (rule conjI [OF A conjI [OF B conjI [OF C D]]])
qed

theorem missing_file_fails_witness:
  "map_of (entries empty_backend) (usv (js ''q'')) = None
   \<and> fst (opfsRead test_env (js ''q'') empty_backend) = Inl (not_found test_env)
   \<and> fst (opfsUpdate test_env (js ''q'') (js ''x'') empty_backend) = Inl (not_found test_env)
   \<and> fst (opfsDelete test_env (js ''q'') empty_backend) = Inl (not_found test_env)
   \<and> fst (opfsDelete test_env (js ''a'')
        (snd (opfsCreate test_env (js ''a'') (js ''hi'') empty_backend))) = Inr ()
   \<and> fst (opfsRead test_env (js ''a'')
        (snd (opfsDelete test_env (js ''a'')
          (snd (opfsCreate test_env (js ''a'') (js ''hi'') empty_backend))))) = Inl (not_found test_env)"
proof -
  have a: "map_of (entries empty_backend) (usv (js ''q'')) = None"
    "valid_file_name (usv (js ''q''))" "has_getDirectory test_env"
    "fault test_env GetDirectory = None" "fault test_env (GetFileHandle (js ''q'') False) = None"
    "fault test_env (RemoveEntry (js ''q'')) = None"
    "fault test_env (GetFileHandle (js ''a'') False) = None"
    by (simp_all add: worker_defs)
  have d: "fst (opfsDelete test_env (js ''a'')
        (snd (opfsCreate test_env (js ''a'') (js ''hi'') empty_backend))) = Inr ()"
    by (simp add: worker_defs)
  note t1 = missing_file_fails [of empty_backend "js ''q''" test_env "js ''x''"]
  note t2 = missing_file_fails [of "snd (opfsCreate test_env (js ''a'') (js ''hi'') empty_backend)"
      "js ''a''" test_env "js ''x''"]
  have r: "fst (opfsRead test_env (js ''q'') empty_backend) = Inl (not_found test_env)"
    "fst (opfsUpdate test_env (js ''q'') (js ''x'') empty_backend) = Inl (not_found test_env)"
    "fst (opfsDelete test_env (js ''q'') empty_backend) = Inl (not_found test_env)"
    using t1 a by blast+
  have r2: "fst (opfsRead test_env (js ''a'')
        (snd (opfsDelete test_env (js ''a'')
          (snd (opfsCreate test_env (js ''a'') (js ''hi'') empty_backend))))) = Inl (not_found test_env)"
    using t2 d a(7) by blast
  show ?thesis using a(1) r d r2 by simp
qed

subsection \<open>The write path of create and update\<close>

text \<open>
  Claim C4. In \<open>opfsCreate\<close> and in \<open>opfsUpdate\<close>, once the synchronous access handle is
  acquired, the platform calls are those of the write path in order (encode, truncate
  to 0, write the encoded content at offset 0, flush) up to the first that throws, and
  then \<open>close\<close>, whether one of them threw or not; the function fails with the exception
  of that call, or succeeds when none threw. When the handle is not acquired the function
  fails with the error of the acquisition. In every case the set of files with an open
  handle is afterwards what it was before. After a success the file holds exactly the
  UTF-8 encoding of the new content, whatever it held before, and the calls made are
  exactly the acquisition, the four calls of the write path and \<open>close\<close>.
\<close>

theorem atomic_overwrite:
  "locked (snd (opfsCreate env f c s)) = locked s
   \<and> locked (snd (opfsUpdate env f c s)) = locked s
   \<and> (\<forall>h s1. acquire env f True s = (Inr h, s1) \<longrightarrow>
        calls (snd (opfsCreate env f c s)) = calls s1 @ upto_fault env (write_path h c) @ [Close h]
        \<and> fst (opfsCreate env f c s) =
            (case first_fault env (write_path h c) of
               Some n \<Rightarrow> Inl (PlatformError n (message_of env n)) | None \<Rightarrow> Inr f))
   \<and> (\<forall>h s1. acquire env f False s = (Inr h, s1) \<longrightarrow>
        calls (snd (opfsUpdate env f c s)) = calls s1 @ upto_fault env (write_path h c) @ [Close h]
        \<and> fst (opfsUpdate env f c s) =
            (case first_fault env (write_path h c) of
               Some n \<Rightarrow> Inl (PlatformError n (message_of env n)) | None \<Rightarrow> Inr ()))
   \<and> (\<forall>e s1. acquire env f True s = (Inl e, s1) \<longrightarrow> opfsCreate env f c s = (Inl e, s1))
   \<and> (\<forall>e s1. acquire env f False s = (Inl e, s1) \<longrightarrow> opfsUpdate env f c s = (Inl e, s1))
   \<and> (\<forall>r. fst (opfsCreate env f c s) = Inr r \<longrightarrow>
        r = f
        \<and> map_of (entries (snd (opfsCreate env f c s))) (usv f)
            = Some (FileEntry (TextEncoder_encode c))
        \<and> calls (snd (opfsCreate env f c s))
            = calls s @ [GetDirectory, GetFileHandle f True, CreateSyncAccessHandle (usv f),
                         Encode c, Truncate (usv f) 0, Write (usv f) (TextEncoder_encode c) 0,
                         Flush (usv f), Close (usv f)])
   \<and> (fst (opfsUpdate env f c s) = Inr () \<longrightarrow>
        map_of (entries (snd (opfsUpdate env f c s))) (usv f)
            = Some (FileEntry (TextEncoder_encode c))
        \<and> calls (snd (opfsUpdate env f c s))
            = calls s @ [GetDirectory, GetFileHandle f False, CreateSyncAccessHandle (usv f),
                         Encode c, Truncate (usv f) 0, Write (usv f) (TextEncoder_encode c) 0,
                         Flush (usv f), Close (usv f)])"
proof (intro conjI allI impI)
  show "locked (snd (opfsCreate env f c s)) = locked s"
    unfolding opfsCreate_overwrite by (rule overwrite_locked_same)
  show "locked (snd (opfsUpdate env f c s)) = locked s"
    unfolding opfsUpdate_overwrite by (rule overwrite_locked_same)
next
  fix h s1 assume a: "acquire env f True s = (Inr h, s1)"
  show "calls (snd (opfsCreate env f c s)) = calls s1 @ upto_fault env (write_path h c) @ [Close h]"
    unfolding opfsCreate_overwrite by (rule overwrite_acquired_run(3) [OF a])
  show "fst (opfsCreate env f c s) =
            (case first_fault env (write_path h c) of
               Some n \<Rightarrow> Inl (PlatformError n (message_of env n)) | None \<Rightarrow> Inr f)"
    unfolding opfsCreate_overwrite by (rule overwrite_acquired_run(1) [OF a])
next
  fix h s1 assume a: "acquire env f False s = (Inr h, s1)"
  show "calls (snd (opfsUpdate env f c s)) = calls s1 @ upto_fault env (write_path h c) @ [Close h]"
    unfolding opfsUpdate_overwrite by (rule overwrite_acquired_run(3) [OF a])
  show "fst (opfsUpdate env f c s) =
            (case first_fault env (write_path h c) of
               Some n \<Rightarrow> Inl (PlatformError n (message_of env n)) | None \<Rightarrow> Inr ())"
    unfolding opfsUpdate_overwrite by (rule overwrite_acquired_run(1) [OF a])
next
  fix e s1 assume a: "acquire env f True s = (Inl e, s1)"
  show "opfsCreate env f c s = (Inl e, s1)"
    unfolding opfsCreate_overwrite by (rule overwrite_not_acquired [OF a])
next
  fix e s1 assume a: "acquire env f False s = (Inl e, s1)"
  show "opfsUpdate env f c s = (Inl e, s1)"
    unfolding opfsUpdate_overwrite by (rule overwrite_not_acquired [OF a])
next
  fix r assume a: "fst (opfsCreate env f c s) = Inr r"
  note b = overwrite_success [OF a [unfolded opfsCreate_overwrite]]
  show "r = f" by (rule b(1))
  show "map_of (entries (snd (opfsCreate env f c s))) (usv f)
            = Some (FileEntry (TextEncoder_encode c))"
    unfolding opfsCreate_overwrite by (rule b(5))
  show "calls (snd (opfsCreate env f c s))
            = calls s @ [GetDirectory, GetFileHandle f True, CreateSyncAccessHandle (usv f),
                         Encode c, Truncate (usv f) 0, Write (usv f) (TextEncoder_encode c) 0,
                         Flush (usv f), Close (usv f)]"
    unfolding opfsCreate_overwrite by (rule b(6))
next
  assume a: "fst (opfsUpdate env f c s) = Inr ()"
  note b = overwrite_success [OF a [unfolded opfsUpdate_overwrite]]
  show "map_of (entries (snd (opfsUpdate env f c s))) (usv f)
            = Some (FileEntry (TextEncoder_encode c))"
    unfolding opfsUpdate_overwrite by (rule b(5))
  show "calls (snd (opfsUpdate env f c s))
            = calls s @ [GetDirectory, GetFileHandle f False, CreateSyncAccessHandle (usv f),
                         Encode c, Truncate (usv f) 0, Write (usv f) (TextEncoder_encode c) 0,
                         Flush (usv f), Close (usv f)]"
    unfolding opfsUpdate_overwrite by (rule b(6))
qed

theorem atomic_overwrite_witness:
  "acquire flush_fails (js ''a'') True empty_backend
     = (Inr (js ''a''),
        \<lparr>entries = [(js ''a'', FileEntry [])], locked = {js ''a''},
         calls = [GetDirectory, GetFileHandle (js ''a'') True, CreateSyncAccessHandle (js ''a'')],
         outbox = []\<rparr>)
   \<and> fst (opfsCreate flush_fails (js ''a'') (js ''hi'') empty_backend)
       = Inl (PlatformError QuotaExceededError (js ''failed''))
   \<and> calls (snd (opfsCreate flush_fails (js ''a'') (js ''hi'') empty_backend))
       = [GetDirectory, GetFileHandle (js ''a'') True, CreateSyncAccessHandle (js ''a''),
          Encode (js ''hi''), Truncate (js ''a'') 0, Write (js ''a'') [0x68, 0x69] 0,
          Flush (js ''a''), Close (js ''a'')]
   \<and> locked (snd (opfsCreate flush_fails (js ''a'') (js ''hi'') empty_backend)) = {}
   \<and> fst (opfsUpdate test_env (js ''a'') (js ''yo'')
          (snd (opfsCreate test_env (js ''a'') (js ''hi'') empty_backend))) = Inr ()
   \<and> map_of (entries (snd (opfsUpdate test_env (js ''a'') (js ''yo'')
          (snd (opfsCreate test_env (js ''a'') (js ''hi'') empty_backend))))) (js ''a'')
       = Some (FileEntry [0x79, 0x6F])"
proof -
  have a: "acquire flush_fails (js ''a'') True empty_backend
     = (Inr (js ''a''),
        \<lparr>entries = [(js ''a'', FileEntry [])], locked = {js ''a''},
         calls = [GetDirectory, GetFileHandle (js ''a'') True, CreateSyncAccessHandle (js ''a'')],
         outbox = []\<rparr>)"
    by (simp add: acquire_def flush_fails_def worker_defs)
  have f: "upto_fault flush_fails (write_path (js ''a'') (js ''hi''))
      = [Encode (js ''hi''), Truncate (js ''a'') 0, Write (js ''a'') [0x68, 0x69] 0, Flush (js ''a'')]"
    "first_fault flush_fails (write_path (js ''a'') (js ''hi'')) = Some QuotaExceededError"
    "message_of flush_fails QuotaExceededError = js ''failed''"
    by (simp_all add: write_path_def flush_fails_def test_env_def TextEncoder_encode_def
        utf8_bytes_def js_def is_lead_def is_trail_def)
  have u: "fst (opfsUpdate test_env (js ''a'') (js ''yo'')
          (snd (opfsCreate test_env (js ''a'') (js ''hi'') empty_backend))) = Inr ()"
    by (simp add: worker_defs)
  have e: "TextEncoder_encode (js ''yo'') = [0x79, 0x6F]" "usv (js ''a'') = js ''a''"
    by (simp_all add: worker_defs)
  note t1 = atomic_overwrite [of flush_fails "js ''a''" "js ''hi''" empty_backend]
  note t2 = atomic_overwrite [of test_env "js ''a''" "js ''yo''"
      "snd (opfsCreate test_env (js ''a'') (js ''hi'') empty_backend)"]
  have c1: "calls (snd (opfsCreate flush_fails (js ''a'') (js ''hi'') empty_backend))
       = [GetDirectory, GetFileHandle (js ''a'') True, CreateSyncAccessHandle (js ''a''),
          Encode (js ''hi''), Truncate (js ''a'') 0, Write (js ''a'') [0x68, 0x69] 0,
          Flush (js ''a''), Close (js ''a'')]"
    and r1: "fst (opfsCreate flush_fails (js ''a'') (js ''hi'') empty_backend)
       = Inl (PlatformError QuotaExceededError (js ''failed''))"
    using t1 a f by simp_all
  have l1: "locked (snd (opfsCreate flush_fails (js ''a'') (js ''hi'') empty_backend)) = {}"
    using t1 by (simp add: empty_backend_def)
  have m2: "map_of (entries (snd (opfsUpdate test_env (js ''a'') (js ''yo'')
          (snd (opfsCreate test_env (js ''a'') (js ''hi'') empty_backend))))) (js ''a'')
       = Some (FileEntry [0x79, 0x6F])"
    using t2 u e by simp
  show ?thesis using a r1 c1 l1 u m2 by simp
qed

subsection \<open>Reading back what was created\<close>

text \<open>
  Claim C3, as amended. After a successful \<open>opfsCreate\<close> of a name with a content, the
  file holds the UTF-8 encoding of the content, and \<open>opfsRead\<close> of the same name on the
  resulting store (its own platform calls not failing) returns the content with every
  unpaired surrogate replaced by U+FFFD and without a leading U+FEFF. It returns the
  content itself, unchanged, when the content is well formed (has no unpaired
  surrogate) and does not begin with U+FEFF.
\<close>

theorem create_then_read:
  assumes "fst (opfsCreate env f c s) = Inr r"
    and "fault env (GetFileHandle f False) = None" and "fault env (GetFile (usv f)) = None"
    and "fault env (Text (TextEncoder_encode c)) = None"
  shows "map_of (entries (snd (opfsCreate env f c s))) (usv f)
           = Some (FileEntry (TextEncoder_encode c))
    \<and> fst (opfsRead env f (snd (opfsCreate env f c s))) = Inr (usv (without_bom c))
    \<and> (well_formed c \<and> without_bom c = c \<longrightarrow>
          fst (opfsRead env f (snd (opfsCreate env f c s))) = Inr c)"
proof -
  note b = overwrite_success [OF assms(1) [unfolded opfsCreate_overwrite]]
  have e: "map_of (entries (snd (opfsCreate env f c s))) (usv f)
           = Some (FileEntry (TextEncoder_encode c))"
    unfolding opfsCreate_overwrite by (rule b(5))
  have rd: "fst (opfsRead env f (snd (opfsCreate env f c s))) = Inr (usv (without_bom c))"
    using read_present [OF e b(4) b(2) b(3) assms(2) assms(3) assms(4)]
    by (simp add: decode_encode)
  have "fst (opfsRead env f (snd (opfsCreate env f c s))) = Inr c"
    if "well_formed c" "without_bom c = c"
    using rd that by (simp add: usv_well_formed)
  then show ?thesis using e rd by blast
qed

theorem create_then_read_witness:
  "fst (opfsCreate test_env (js ''a.txt'') (js ''hi'') empty_backend) = Inr (js ''a.txt'')
   \<and> well_formed (js ''hi'') \<and> without_bom (js ''hi'') = js ''hi''
   \<and> fst (opfsRead test_env (js ''a.txt'')
        (snd (opfsCreate test_env (js ''a.txt'') (js ''hi'') empty_backend))) = Inr (js ''hi'')"
proof -
  have a: "fst (opfsCreate test_env (js ''a.txt'') (js ''hi'') empty_backend) = Inr (js ''a.txt'')"
    by (simp add: worker_defs)
  have b: "fault test_env (GetFileHandle (js ''a.txt'') False) = None"
    "fault test_env (GetFile (usv (js ''a.txt''))) = None"
    "fault test_env (Text (TextEncoder_encode (js ''hi''))) = None"
    by (simp_all add: test_env_def)
  have c: "well_formed (js ''hi'')" "without_bom (js ''hi'') = js ''hi''"
    by (simp_all add: js_def without_bom_def is_lead_def is_trail_def)
  show ?thesis
    using create_then_read [OF a b] a c by blast
qed

text \<open>
  For every string the claim as first stated does not hold: a content that is one unpaired
  surrogate is stored as the encoding of U+FFFD and read back as U+FFFD, and a content
  that begins with U+FEFF is read back without it.
\<close>

theorem lone_surrogate_not_read_back:
  "fst (opfsCreate test_env (js ''a.txt'') [0xD800] empty_backend) = Inr (js ''a.txt'')
   \<and> fst (opfsRead test_env (js ''a.txt'')
        (snd (opfsCreate test_env (js ''a.txt'') [0xD800] empty_backend))) = Inr [0xFFFD]
   \<and> fst (opfsCreate test_env (js ''a.txt'') [0xFEFF, 0x61] empty_backend) = Inr (js ''a.txt'')
   \<and> fst (opfsRead test_env (js ''a.txt'')
        (snd (opfsCreate test_env (js ''a.txt'') [0xFEFF, 0x61] empty_backend))) = Inr [0x61]"
  by (simp add: worker_defs)

subsection \<open>Listing\<close>

text \<open>
  Claim C6. When the root directory opens and enumerates, \<open>opfsList\<close> returns exactly the
  names of the file entries whose name does not start with a dot, each as often as the
  directory holds it, in ascending order of \<open>localeCompare\<close> (a consistent comparator);
  it changes nothing in the store, and its result depends on the store through the
  directory entries only. With the files \<open>b.txt\<close>, \<open>a.txt\<close> and \<open>.hidden\<close> it returns
  \<open>a.txt\<close>, \<open>b.txt\<close>, given that \<open>localeCompare\<close> puts \<open>b.txt\<close> after \<open>a.txt\<close>.
\<close>

theorem list_visible_sorted:
  assumes "has_getDirectory env" and "fault env GetDirectory = None" and "fault env Values = None"
    and "consistent (localeCompare env)"
  shows "snd (opfsList env s) = called [GetDirectory, Values] s
    \<and> (\<exists>names. fst (opfsList env s) = Inr names
          \<and> set names = {n. \<exists>e. (n, e) \<in> set (entries s) \<and> is_file e \<and> \<not> startsWith n (js ''.'')}
          \<and> (\<forall>n. count_list names n = count_list (visible (entries s)) n)
          \<and> sorted_wrt (\<lambda>a b. localeCompare env a b \<le> 0) names)
    \<and> (entries s' = entries s \<longrightarrow> fst (opfsList env s') = fst (opfsList env s))
    \<and> (entries s = [(js ''b.txt'', FileEntry x), (js ''a.txt'', FileEntry y),
                      (js ''.hidden'', FileEntry z)]
         \<and> \<not> localeCompare env (js ''b.txt'') (js ''a.txt'') \<le> 0 \<longrightarrow>
         fst (opfsList env s) = Inr [js ''a.txt'', js ''b.txt''])"
proof -
  note r = opfsList_run [OF assms(1-3)]
  have a: "snd (opfsList env s) = called [GetDirectory, Values] s" by (simp add: r)
  have b: "\<exists>names. fst (opfsList env s) = Inr names
          \<and> set names = {n. \<exists>e. (n, e) \<in> set (entries s) \<and> is_file e \<and> \<not> startsWith n (js ''.'')}
          \<and> (\<forall>n. count_list names n = count_list (visible (entries s)) n)
          \<and> sorted_wrt (\<lambda>a b. localeCompare env a b \<le> 0) names"
    by (simp add: r set_Array_sort set_visible count_Array_sort sorted_Array_sort [OF assms(4)])
  have c: "entries s' = entries s \<longrightarrow> fst (opfsList env s') = fst (opfsList env s)"
    by (simp add: r)
  have d: "entries s = [(js ''b.txt'', FileEntry x), (js ''a.txt'', FileEntry y),
                      (js ''.hidden'', FileEntry z)]
         \<and> \<not> localeCompare env (js ''b.txt'') (js ''a.txt'') \<le> 0 \<longrightarrow>
         fst (opfsList env s) = Inr [js ''a.txt'', js ''b.txt'']"
    by (simp add: r visible_def startsWith_def Array_sort_def js_def)
  show ?thesis by (rule conjI [OF a conjI [OF b conjI [OF c d]]])
qed

theorem list_visible_sorted_witness:
  "has_getDirectory test_env \<and> fault test_env GetDirectory = None
   \<and> fault test_env Values = None \<and> consistent (localeCompare test_env)
   \<and> entries (snd (opfsCreate test_env (js ''.hidden'') (js ''3'')
        (snd (opfsCreate test_env (js ''a.txt'') (js ''2'')
          (snd (opfsCreate test_env (js ''b.txt'') (js ''1'') empty_backend))))))
      = [(js ''b.txt'', FileEntry [0x31]), (js ''a.txt'', FileEntry [0x32]),
         (js ''.hidden'', FileEntry [0x33])]
   \<and> fst (opfsList test_env (snd (opfsCreate test_env (js ''.hidden'') (js ''3'')
        (snd (opfsCreate test_env (js ''a.txt'') (js ''2'')
          (snd (opfsCreate test_env (js ''b.txt'') (js ''1'') empty_backend)))))))
      = Inr [js ''a.txt'', js ''b.txt'']"
proof -
  let ?s = "snd (opfsCreate test_env (js ''.hidden'') (js ''3'')
        (snd (opfsCreate test_env (js ''a.txt'') (js ''2'')
          (snd (opfsCreate test_env (js ''b.txt'') (js ''1'') empty_backend)))))"
  have h: "has_getDirectory test_env" "fault test_env GetDirectory = None"
    "fault test_env Values = None"
    by (simp_all add: test_env_def)
  have c: "consistent (localeCompare test_env)"
    by (simp add: test_env_def consistent_compare_units)
  have e: "entries ?s = [(js ''b.txt'', FileEntry [0x31]), (js ''a.txt'', FileEntry [0x32]),
         (js ''.hidden'', FileEntry [0x33])]"
    by (simp add: worker_defs)
  have n: "\<not> localeCompare test_env (js ''b.txt'') (js ''a.txt'') \<le> 0"
    by (simp add: test_env_def js_def)
  have "fst (opfsList test_env ?s) = Inr [js ''a.txt'', js ''b.txt'']"
    using list_visible_sorted [OF h c, of ?s ?s "[0x31]" "[0x32]" "[0x33]"] e n by blast
  then show ?thesis using h c e by simp
qed

section \<open>Properties of the system\<close>

subsection \<open>The invariant, and abandoned promises\<close>

lemma sys_run_Nil: "sys_run h S [] = S"
  by (simp add: sys_run_def)

lemma sys_run_Cons: "sys_run h S (x # xs) = sys_run h (sys_step h S x) xs"
  by (simp add: sys_run_def)

lemma sys_run_snoc: "sys_run h S (xs @ [x]) = sys_step h (sys_run h S xs) x"
  by (simp add: sys_run_def)

lemma sys_run_append: "sys_run h S (xs @ ys) = sys_run h (sys_run h S xs) ys"
  by (simp add: sys_run_def)

lemma user_call_fields:
  "page (user_call h k S) = step (page S) (Call k (uuid_of h (drawn S)))"
  "drawn (user_call h k S) = Suc (drawn S)"
  "replies (user_call h k S) = replies S"
  "fired (user_call h k S) = fired S"
  "store (user_call h k S) = store S"
  "taken (user_call h k S) = taken S"
  "delivered (user_call h k S) = delivered S"
  by (simp_all add: user_call_def call_procedure_def randomUUID_def split_beta)

lemma dispatch_outbox:
  assumes "keeps_outbox m"
  shows "\<exists>r. outbox (snd (try_catch (and_then m (\<lambda>x. reply cid (f x))) (\<lambda>err. replyError cid err) s))
            = outbox s @ [r] \<and> response_id r = cid"
  using dispatch [of m s "fst (m s)" "snd (m s)" cid f] outbox_post [OF assms, of _ s]
  by simp

lemma unknown_outbox:
  "\<exists>r. outbox (snd (try_catch (replyError cid (NonError v)) (\<lambda>err. replyError cid err) s))
            = outbox s @ [r] \<and> response_id r = cid"
  by (simp add: try_catch_def replyError_def ret_def)

lemma onmessage_outbox:
  "\<exists>r. outbox (snd (onmessage env data s)) = outbox s @ [r] \<and> response_id r = correlationId data"
proof -
  define Q where "Q m \<longleftrightarrow>
    (\<exists>r. outbox (snd (try_catch m (\<lambda>err. replyError (correlationId data) err) s)) = outbox s @ [r]
        \<and> response_id r = correlationId data)" for m
  have a: "keeps_outbox m \<Longrightarrow> Q (and_then m (\<lambda>x. reply (correlationId data) (f x)))" for m f
    unfolding Q_def by (rule dispatch_outbox)
  have b: "Q (replyError (correlationId data) (NonError v))" for v
    unfolding Q_def by (rule unknown_outbox)
  have "Q (if rtype data = js ''init'' then
          and_then (opfsInit env) (\<lambda>u. reply (correlationId data) Undefined)
        else if rtype data = js ''list'' then
          and_then (opfsList env) (\<lambda>names. reply (correlationId data) (StrArray names))
        else if rtype data = js ''create'' then
          and_then (opfsCreate env (fileName data) (content data))
            (\<lambda>name. reply (correlationId data) (Str name))
        else if rtype data = js ''read'' then
          and_then (opfsRead env (fileName data)) (\<lambda>text. reply (correlationId data) (Str text))
        else if rtype data = js ''update'' then
          and_then (opfsUpdate env (fileName data) (content data))
            (\<lambda>u. reply (correlationId data) Undefined)
        else if rtype data = js ''delete'' then
          and_then (opfsDelete env (fileName data)) (\<lambda>u. reply (correlationId data) Undefined)
        else replyError (correlationId data)
               (NonError (js ''Unknown message type: '' @ rtype data)))"
    using a [OF keeps_outbox_executor(1), of env "\<lambda>u. Undefined"]
      a [OF keeps_outbox_executor(2), of env StrArray]
      a [OF keeps_outbox_executor(3), of env "fileName data" "content data" Str]
      a [OF keeps_outbox_executor(4), of env "fileName data" Str]
      a [OF keeps_outbox_executor(5), of env "fileName data" "content data" "\<lambda>u. Undefined"]
      a [OF keeps_outbox_executor(6), of env "fileName data" "\<lambda>u. Undefined"]
      b [of "js ''Unknown message type: '' @ rtype data"]
    by (simp only: if_split [of Q] simp_thms)
  then show ?thesis unfolding onmessage_def Q_def .
qed

lemma step_Message_fields:
  "worker (step s (Message w r)) = worker s"
  "workers (step s (Message w r)) = workers s"
  "sent (trace (step s (Message w r))) = sent (trace s)"
proof -
  show "worker (step s (Message w r)) = worker s" "workers (step s (Message w r)) = workers s"
    by (cases "pending s (response_id r)";
        simp add: response_listener_absent response_listener_present)+
  show "sent (trace (step s (Message w r))) = sent (trace s)"
    using step_sent [of s "Message w r"] by simp
qed

lemma step_Call_fields:
  "worker (step s (Call k u)) = Some (fst (getWorker s))"
  "workers (step s (Call k u)) = workers (snd (getWorker s))"
  "sent (trace (step s (Call k u))) = sent (trace s) @ [(fst (getWorker s), make_request k u)]"
  "pending (step s (Call k u)) = (pending s)(u \<mapsto> length (promises s))"
  "promises (step s (Call k u)) = promises s @ [Pending]"
  using step_sent [of s "Call k u"]
  by (simp_all add: OPFSFileSystem_def send_fields del: step.simps)
     (simp_all add: OPFSFileSystem_def send_fields)

lemma sys_ok_init: "sys_ok h (init_system st)"
  using registry_ok_init by (simp add: sys_ok_def init_system_def init_bridge_def)

lemma sys_ok_user_call:
  assumes "sys_ok h S"
  shows "sys_ok h (user_call h k S)"
proof -
  let ?b = "page S" and ?u = "uuid_of h (drawn S)"
  have ok: "registry_ok ?b"
    and rp: "\<forall>(w, r) \<in> set (replies S). script_loads h w
        \<and> (\<exists>req. (w, req) \<in> set (sent (trace ?b)) \<and> correlationId req = response_id r)"
    and fr: "\<forall>w \<in> fired S. \<not> script_loads h w"
    and cur: "\<forall>w < length (workers ?b). worker ?b = Some w \<or> w \<in> fired S"
    and ps: "\<forall>(w, req) \<in> set (sent (trace ?b)). w < length (workers ?b)"
    and tk: "\<forall>i \<in> taken S. i < length (sent (trace ?b))"
    and dl: "\<forall>j \<in> delivered S. j < length (replies S)"
    using assms unfolding sys_ok_def by blast+
  have wl: "\<forall>w. worker ?b = Some w \<longrightarrow> w < length (workers ?b)"
    using ok unfolding registry_ok_def by blast
  have 1: "registry_ok (step ?b (Call k ?u))" by (rule registry_ok_step [OF ok])
  have 2: "\<forall>(w, r) \<in> set (replies S). script_loads h w
        \<and> (\<exists>req. (w, req) \<in> set (sent (trace (step ?b (Call k ?u))))
              \<and> correlationId req = response_id r)"
    unfolding step_Call_fields(3) using rp by fastforce
  have 4: "\<forall>w < length (workers (step ?b (Call k ?u))).
       worker (step ?b (Call k ?u)) = Some w \<or> w \<in> fired S"
    unfolding step_Call_fields
    using cur wl by (cases "worker ?b") (auto simp: getWorker_fields less_Suc_eq)
  have 5: "\<forall>(w, req) \<in> set (sent (trace (step ?b (Call k ?u)))).
       w < length (workers (step ?b (Call k ?u)))"
    unfolding step_Call_fields
    using ps wl by (cases "worker ?b") (auto simp: getWorker_fields less_Suc_eq)
  have 6: "\<forall>i \<in> taken S. i < length (sent (trace (step ?b (Call k ?u))))"
    unfolding step_Call_fields using tk by auto
  show ?thesis
    unfolding sys_ok_def user_call_fields
    by (rule conjI [OF 1 conjI [OF 2 conjI [OF fr conjI [OF 4 conjI [OF 5 conjI [OF 6 dl]]]]]])
qed

lemma sys_ok_worker_takes:
  assumes "sys_ok h S"
  shows "sys_ok h (worker_takes h i S)"
proof (cases "i < length (sent (trace (page S))) \<and> i \<notin> taken S
         \<and> script_loads h (fst (sent (trace (page S)) ! i))")
  case False
  show ?thesis unfolding worker_takes_def if_not_P [OF False] by (rule assms)
next
  case True
  obtain w req where x: "sent (trace (page S)) ! i = (w, req)" by (cases "sent (trace (page S)) ! i")
  have mem: "(w, req) \<in> set (sent (trace (page S)))" using True x nth_mem by metis
  have lw: "script_loads h w" using True x by simp
  obtain r where r: "outbox (snd (onmessage (worker_env h) req ((store S)\<lparr>outbox := []\<rparr>))) = [r]"
      "response_id r = correlationId req"
    using onmessage_outbox [of "worker_env h" req "(store S)\<lparr>outbox := []\<rparr>"] by auto
  show ?thesis using assms True mem lw r
    unfolding sys_ok_def worker_takes_def by (auto simp: x)
qed

lemma sys_ok_page_gets:
  assumes "sys_ok h S"
  shows "sys_ok h (page_gets j S)"
proof (cases "j < length (replies S) \<and> j \<notin> delivered S")
  case False
  show ?thesis unfolding page_gets_def if_not_P [OF False] by (rule assms)
next
  case True
  obtain w r where x: "replies S ! j = (w, r)" by (cases "replies S ! j")
  have "registry_ok (step (page S) (Message w r))"
    using assms registry_ok_step unfolding sys_ok_def by blast
  then show ?thesis using assms True
    unfolding sys_ok_def page_gets_def
    by (simp add: x step_Message_fields del: step.simps)
qed

lemma load_fails_enabled:
  assumes "sys_ok h S" and "w < length (workers (page S))" and "\<not> script_loads h w"
    and "w \<notin> fired S"
  shows "worker (page S) = Some w"
    and "load_fails h w m S = S\<lparr>page := worker_onerror m (page S), fired := insert w (fired S)\<rparr>"
proof -
  show "worker (page S) = Some w" using assms unfolding sys_ok_def by blast
  have "onerror_set (workers (page S) ! w)"
    using assms(1,2) unfolding sys_ok_def registry_ok_def by blast
  then show "load_fails h w m S = S\<lparr>page := worker_onerror m (page S), fired := insert w (fired S)\<rparr>"
    using assms by (simp add: load_fails_def)
qed

lemma sys_ok_load_fails:
  assumes "sys_ok h S"
  shows "sys_ok h (load_fails h w m S)"
proof (cases "w < length (workers (page S)) \<and> \<not> script_loads h w \<and> w \<notin> fired S")
  case False
  show ?thesis unfolding load_fails_def if_not_P [OF False] by (rule assms)
next
  case True
  have cur: "worker (page S) = Some w"
    and eq: "load_fails h w m S = S\<lparr>page := worker_onerror m (page S), fired := insert w (fired S)\<rparr>"
    using load_fails_enabled [OF assms] True by blast+
  have "registry_ok (worker_onerror m (page S))"
    using assms registry_ok_onerror unfolding sys_ok_def by blast
  then show ?thesis using assms True cur
    unfolding eq sys_ok_def
    by (auto simp: worker_onerror_fields sent_append)
qed

lemma sys_ok_step: "sys_ok h S \<Longrightarrow> sys_ok h (sys_step h S x)"
  by (cases x)
     (simp_all add: sys_ok_user_call sys_ok_worker_takes sys_ok_page_gets sys_ok_load_fails)

lemma sys_ok_run: "sys_ok h S \<Longrightarrow> sys_ok h (sys_run h S xs)"
  by (induction xs rule: rev_induct) (simp_all add: sys_run_Nil sys_run_snoc sys_ok_step)

lemma abandoned_user_call:
  assumes "abandoned h S p"
  shows "abandoned h (user_call h k S) p"
proof -
  let ?b = "page S" and ?u = "uuid_of h (drawn S)"
  have p: "p < length (promises ?b)" "promises ?b ! p = Pending"
    and q: "\<forall>c. pending ?b c = Some p \<longrightarrow>
        (\<forall>(w, req) \<in> set (sent (trace ?b)). correlationId req = c \<longrightarrow> \<not> script_loads h w)"
    using assms unfolding abandoned_def by blast+
  have 1: "p < length (promises (step ?b (Call k ?u)))"
    and 2: "promises (step ?b (Call k ?u)) ! p = Pending"
    unfolding step_Call_fields using p by (simp_all add: nth_append)
  have 3: "\<forall>c. pending (step ?b (Call k ?u)) c = Some p \<longrightarrow>
        (\<forall>(w, req) \<in> set (sent (trace (step ?b (Call k ?u)))).
            correlationId req = c \<longrightarrow> \<not> script_loads h w)"
    unfolding step_Call_fields using p(1) q by (auto simp: make_request_id)
  show ?thesis
    unfolding abandoned_def user_call_fields by (rule conjI [OF 1 conjI [OF 2 3]])
qed

lemma abandoned_worker_takes:
  assumes "abandoned h S p"
  shows "abandoned h (worker_takes h i S) p"
  using assms unfolding abandoned_def worker_takes_def by (simp add: split_beta Let_def)

lemma abandoned_load_fails:
  assumes "sys_ok h S" and "abandoned h S p"
  shows "abandoned h (load_fails h w m S) p"
proof (cases "w < length (workers (page S)) \<and> \<not> script_loads h w \<and> w \<notin> fired S")
  case False
  show ?thesis unfolding load_fails_def if_not_P [OF False] by (rule assms)
next
  case True
  have eq: "load_fails h w m S = S\<lparr>page := worker_onerror m (page S), fired := insert w (fired S)\<rparr>"
    using load_fails_enabled [OF assms(1)] True by blast
  show ?thesis using assms(2)
    unfolding eq abandoned_def by (simp add: worker_onerror_fields sent_append)
qed

lemma abandoned_page_gets:
  assumes ok: "sys_ok h S" and ab: "abandoned h S p"
  shows "abandoned h (page_gets j S) p"
proof (cases "j < length (replies S) \<and> j \<notin> delivered S")
  case False
  show ?thesis unfolding page_gets_def if_not_P [OF False] by (rule ab)
next
  case True
  obtain w r where x: "replies S ! j = (w, r)" by (cases "replies S ! j")
  have "(w, r) \<in> set (replies S)" using True x nth_mem by metis
  then obtain req where req: "script_loads h w" "(w, req) \<in> set (sent (trace (page S)))"
      "correlationId req = response_id r"
    using ok unfolding sys_ok_def by blast
  have eq: "page_gets j S
      = S\<lparr>page := step (page S) (Message w r), delivered := insert j (delivered S)\<rparr>"
    using True by (simp add: page_gets_def x del: step.simps)
  have np: "pending (page S) (response_id r) \<noteq> Some p"
    using ab req unfolding abandoned_def by fastforce
  have "abandoned h (S\<lparr>page := step (page S) (Message w r)\<rparr>) p"
  proof (cases "pending (page S) (response_id r)")
    case None
    then show ?thesis using ab by (simp add: abandoned_def response_listener_absent)
  next
    case (Some q)
    then have "q \<noteq> p" using np by simp
    then show ?thesis using ab
      unfolding abandoned_def
      by (auto simp: response_listener_present [OF Some] sent_append settle_promises)
  qed
  then show ?thesis unfolding eq abandoned_def by simp
qed

lemma abandoned_step:
  "sys_ok h S \<Longrightarrow> abandoned h S p \<Longrightarrow> abandoned h (sys_step h S x) p"
  by (cases x)
     (simp_all add: abandoned_user_call abandoned_worker_takes abandoned_page_gets
        abandoned_load_fails)

lemma abandoned_run:
  "sys_ok h S \<Longrightarrow> abandoned h S p \<Longrightarrow> abandoned h (sys_run h S xs) p"
  by (induction xs rule: rev_induct)
     (simp_all add: sys_run_Nil sys_run_snoc abandoned_step sys_ok_run)

lemma no_worker_abandoned:
  assumes ok: "sys_ok h S" and none: "worker (page S) = None"
    and p: "p < length (promises (page S))" "promises (page S) ! p = Pending"
  shows "abandoned h S p"
proof -
  have "\<not> script_loads h w" if "(w, req) \<in> set (sent (trace (page S)))" for w req
  proof -
    have "w < length (workers (page S))" using ok that unfolding sys_ok_def by blast
    then have "w \<in> fired S" using ok none unfolding sys_ok_def by auto
    then show ?thesis using ok unfolding sys_ok_def by blast
  qed
  then show ?thesis using p unfolding abandoned_def by blast
qed

lemma abandoned_unsettled:
  assumes "sys_ok h S" and "abandoned h S p"
  shows "promises (page S) ! p = Pending \<and> filter (settles p) (trace (page S)) = []"
proof -
  have "registry_ok (page S)" using assms(1) unfolding sys_ok_def by blast
  then show ?thesis using assms(2) unfolding registry_ok_def abandoned_def by blast
qed

lemma onmessage_init:
  "onmessage env (make_request CallInit u) s
     = (Inr (), post (envelope u (\<lambda>u. Undefined) (fst (opfsInit env s))) (snd (opfsInit env s)))"
  unfolding onmessage_def
  using dispatch [of "opfsInit env" s "fst (opfsInit env s)" "snd (opfsInit env s)" u
      "\<lambda>u. Undefined"]
  by simp

lemma listener_promises:
  assumes "pending s (response_id r) = Some p" and "p < length (promises s)"
    and "promises s ! p = Pending"
  shows "promises (response_listener r s) = (promises s)[p := settled_with r]"
  using assms
  by (cases r) (simp_all add: response_listener_def resolve_def reject_def settle_def emit_def
      settled_with_def Let_def)

lemmas system_defs =
  sys_run_def user_call_def worker_takes_def page_gets_def load_fails_def init_system_def
  test_host_def call_procedure_def randomUUID_def test_uuid_def

subsection \<open>Recovery after an uncaught error\<close>

text \<open>
  Claim C5. Let the error event of a worker object occur in a reachable state of the
  system. That worker is the singleton, and the handler logs the message and clears the
  singleton reference, leaving registry and promises as they are. Whatever happens
  afterwards, in any order, every promise that was pending at that moment stays pending
  and is never the target of a settling call. The next call of a procedure creates a fresh
  worker object with the message listener and the error listener set, makes it the
  singleton and posts its request to it. When the script of that worker loads, the worker
  handles the request and posts one Result Envelope bearing the id of the call, and on
  its receipt the promise of the call is settled with it; for \<open>init\<close>, when \<open>opfsInit\<close>
  succeeds in the worker, the promise is fulfilled.
\<close>

theorem crash_recovery:
  fixes h :: host and st :: backend and before :: "occurrence list" and k :: call
    and w :: nat and m :: jsstring
  defines "S0 \<equiv> sys_run h (init_system st) before"
  defines "S1 \<equiv> sys_step h S0 (LoadFails w m)"
  defines "S2 \<equiv> sys_step h S1 (UserCall k)"
  defines "S4 \<equiv> sys_run h S2 [WorkerTakes (length (sent (trace (page S1)))),
                                PageGets (length (replies S1))]"
  assumes en: "w < length (workers (page S0))" "\<not> script_loads h w" "w \<notin> fired S0"
  shows "worker (page S0) = Some w
    \<and> worker (page S1) = None
    \<and> pending (page S1) = pending (page S0)
    \<and> promises (page S1) = promises (page S0)
    \<and> trace (page S1)
        = trace (page S0) @ [ConsoleError (js ''[OPFS Worker] Uncaught error: '' @ m)]
    \<and> (\<forall>later p. p < length (promises (page S0)) \<and> promises (page S0) ! p = Pending \<longrightarrow>
          promises (page (sys_run h S1 later)) ! p = Pending
          \<and> filter (settles p) (trace (page (sys_run h S1 later))) = [])
    \<and> workers (page S2)
        = workers (page S0) @ [\<lparr>onmessage_set = True, onerror_set = True\<rparr>]
    \<and> worker (page S2) = Some (length (workers (page S0)))
    \<and> trace (page S2)
        = trace (page S1)
          @ [NewWorker (length (workers (page S0))),
             PendingSet (uuid_of h (drawn S0)) (length (promises (page S0))),
             PostMessage (length (workers (page S0))) (make_request k (uuid_of h (drawn S0)))]
    \<and> promises (page S2) = promises (page S0) @ [Pending]
    \<and> (script_loads h (length (workers (page S0))) \<longrightarrow>
         (\<exists>r. outbox (snd (onmessage (worker_env h) (make_request k (uuid_of h (drawn S0)))
                              ((store S0)\<lparr>outbox := []\<rparr>))) = [r]
            \<and> response_id r = uuid_of h (drawn S0)
            \<and> promises (page S4) = promises (page S0) @ [settled_with r]
            \<and> trace (page S4)
                = trace (page S2)
                  @ [PendingDelete (uuid_of h (drawn S0)),
                     settle_effect (length (promises (page S0))) r]))
    \<and> (script_loads h (length (workers (page S0))) \<and> k = CallInit
         \<and> fst (opfsInit (worker_env h) ((store S0)\<lparr>outbox := []\<rparr>)) = Inr () \<longrightarrow>
         promises (page S4) = promises (page S0) @ [Fulfilled Undefined])"
proof -
  let ?b0 = "page S0"
  let ?W = "length (workers ?b0)" and ?u = "uuid_of h (drawn S0)"
  let ?pn = "length (promises ?b0)"
  let ?req = "make_request k ?u"
  let ?st = "snd (onmessage (worker_env h) ?req ((store S0)\<lparr>outbox := []\<rparr>))"
  have ok0: "sys_ok h S0" unfolding S0_def by (rule sys_ok_run [OF sys_ok_init])
  have a: "worker ?b0 = Some w"
    and S1: "S1 = S0\<lparr>page := worker_onerror m ?b0, fired := insert w (fired S0)\<rparr>"
    using load_fails_enabled [OF ok0 en] by (simp_all add: S1_def)
  have ok1: "sys_ok h S1" unfolding S1_def by (rule sys_ok_step [OF ok0])
  have b: "worker (page S1) = None" and c: "pending (page S1) = pending ?b0"
    and d: "promises (page S1) = promises ?b0"
    and e: "trace (page S1) = trace ?b0 @ [ConsoleError (js ''[OPFS Worker] Uncaught error: '' @ m)]"
    and w1: "workers (page S1) = workers ?b0"
    and f1: "drawn S1 = drawn S0" "store S1 = store S0" "replies S1 = replies S0"
      "taken S1 = taken S0" "delivered S1 = delivered S0"
    by (simp_all add: S1 worker_onerror_fields)
  have f: "\<forall>later p. p < length (promises ?b0) \<and> promises ?b0 ! p = Pending \<longrightarrow>
          promises (page (sys_run h S1 later)) ! p = Pending
          \<and> filter (settles p) (trace (page (sys_run h S1 later))) = []"
  proof (intro allI impI)
    fix later p assume "p < length (promises ?b0) \<and> promises ?b0 ! p = Pending"
    then have "abandoned h S1 p" using no_worker_abandoned [OF ok1 b] d by simp
    then have "abandoned h (sys_run h S1 later) p" by (rule abandoned_run [OF ok1])
    then show "promises (page (sys_run h S1 later)) ! p = Pending
          \<and> filter (settles p) (trace (page (sys_run h S1 later))) = []"
      by (rule abandoned_unsettled [OF sys_ok_run [OF ok1]])
  qed
  have S2: "page S2 = step (page S1) (Call k ?u)" "replies S2 = replies S0"
    "taken S2 = taken S0" "delivered S2 = delivered S0" "store S2 = store S0"
    by (simp_all add: S2_def user_call_fields f1 del: step.simps)
  have gw: "fst (getWorker (page S1)) = ?W"
    "workers (snd (getWorker (page S1))) = workers ?b0 @ [\<lparr>onmessage_set = True, onerror_set = True\<rparr>]"
    "trace (snd (getWorker (page S1))) = trace (page S1) @ [NewWorker ?W]"
    by (simp_all add: getWorker_fields b w1)
  have g: "workers (page S2) = workers ?b0 @ [\<lparr>onmessage_set = True, onerror_set = True\<rparr>]"
    and i: "worker (page S2) = Some ?W"
    and j: "trace (page S2) = trace (page S1) @ [NewWorker ?W, PendingSet ?u ?pn, PostMessage ?W ?req]"
    and l: "promises (page S2) = promises ?b0 @ [Pending]"
    and pd: "pending (page S2) = (pending ?b0)(?u \<mapsto> ?pn)"
    and sn: "sent (trace (page S2)) = sent (trace (page S1)) @ [(?W, ?req)]"
    unfolding S2(1) step_Call_fields
    by (simp_all add: OPFSFileSystem_def send_fields gw c d)
  obtain r where r: "outbox ?st = [r]" "response_id r = ?u"
    using onmessage_outbox [of "worker_env h" ?req "(store S0)\<lparr>outbox := []\<rparr>"] by auto
  have tk: "length (sent (trace (page S1))) \<notin> taken S0"
    and dl: "length (replies S0) \<notin> delivered S0"
    using ok1 unfolding sys_ok_def f1 by blast+
  have S4: "page S4 = response_listener r (page S2)" if ld: "script_loads h ?W"
  proof -
    let ?S3 = "worker_takes h (length (sent (trace (page S1)))) S2"
    have S3: "?S3 = S2\<lparr>taken := insert (length (sent (trace (page S1)))) (taken S2),
                replies := replies S2 @ [(?W, r)], store := ?st\<rparr>"
      using ld tk r(1) by (simp add: worker_takes_def sn S2(2-5) Let_def)
    have "page_gets (length (replies S1)) ?S3
        = ?S3\<lparr>page := step (page ?S3) (Message ?W r),
               delivered := insert (length (replies S1)) (delivered ?S3)\<rparr>"
      using dl by (simp add: page_gets_def S3 S2(2-5) f1 del: step.simps)
    then have "page S4 = step (page S2) (Message ?W r)"
      by (simp add: S4_def sys_run_Cons sys_run_Nil S3 del: step.simps)
    then show ?thesis by (simp add: g)
  qed
  have reg: "pending (page S2) (response_id r) = Some ?pn" by (simp add: pd r)
  have n: "script_loads h ?W \<longrightarrow>
         (\<exists>r. outbox ?st = [r] \<and> response_id r = ?u
            \<and> promises (page S4) = promises ?b0 @ [settled_with r]
            \<and> trace (page S4) = trace (page S2) @ [PendingDelete ?u, settle_effect ?pn r])"
  proof
    assume ld: "script_loads h ?W"
    have "promises (page S4) = promises ?b0 @ [settled_with r]"
      unfolding S4 [OF ld] using listener_promises [OF reg] by (simp add: l)
    moreover have "trace (page S4) = trace (page S2) @ [PendingDelete ?u, settle_effect ?pn r]"
      unfolding S4 [OF ld] using response_listener_present(4) [OF reg] by (simp add: r)
    ultimately show "\<exists>r. outbox ?st = [r] \<and> response_id r = ?u
            \<and> promises (page S4) = promises ?b0 @ [settled_with r]
            \<and> trace (page S4) = trace (page S2) @ [PendingDelete ?u, settle_effect ?pn r]"
      using r by blast
  qed
  have o: "script_loads h ?W \<and> k = CallInit
         \<and> fst (opfsInit (worker_env h) ((store S0)\<lparr>outbox := []\<rparr>)) = Inr () \<longrightarrow>
         promises (page S4) = promises ?b0 @ [Fulfilled Undefined]"
  proof
    assume x: "script_loads h ?W \<and> k = CallInit
         \<and> fst (opfsInit (worker_env h) ((store S0)\<lparr>outbox := []\<rparr>)) = Inr ()"
    have ki: "k = CallInit"
      and fi: "fst (opfsInit (worker_env h) ((store S0)\<lparr>outbox := []\<rparr>)) = Inr ()"
      using x by simp_all
    have "outbox ?st = [Success ?u Undefined]"
      unfolding ki onmessage_init
      using fi keeps_outbox_executor(1) [of "worker_env h"]
      by (simp add: post_def envelope_def keeps_outbox_def)
    then have "r = Success ?u Undefined" using r by simp
    moreover have "promises (page S4) = promises ?b0 @ [settled_with r]"
      using x S4 listener_promises [OF reg] by (simp add: l)
    ultimately show "promises (page S4) = promises ?b0 @ [Fulfilled Undefined]"
      by (simp add: settled_with_def)
  qed
  show ?thesis
    by (rule conjI [OF a conjI [OF b conjI [OF c conjI [OF d conjI [OF e conjI [OF f
          conjI [OF g conjI [OF i conjI [OF j conjI [OF l conjI [OF n o]]]]]]]]]]])
qed

theorem crash_recovery_witness:
  "length (workers (page (sys_run test_host (init_system empty_backend) [UserCall CallList]))) = 1
   \<and> \<not> script_loads test_host 0
   \<and> fired (sys_run test_host (init_system empty_backend) [UserCall CallList]) = {}
   \<and> worker (page (sys_run test_host (init_system empty_backend)
         [UserCall CallList, LoadFails 0 (js ''x'')])) = None
   \<and> script_loads test_host 1
   \<and> promises (page (sys_run test_host (init_system empty_backend)
         [UserCall CallList, LoadFails 0 (js ''x''), UserCall CallInit,
          WorkerTakes 1, PageGets 0])) = [Pending, Fulfilled Undefined]"
proof -
  let ?S0 = "sys_run test_host (init_system empty_backend) [UserCall CallList]"
  let ?S1 = "sys_step test_host ?S0 (LoadFails 0 (js ''x''))"
  let ?S2 = "sys_step test_host ?S1 (UserCall CallInit)"
  have S0: "?S0 = \<lparr>page = \<lparr>worker = Some 0,
        workers = [\<lparr>onmessage_set = True, onerror_set = True\<rparr>],
        pending = [test_uuid 0 \<mapsto> 0], promises = [Pending],
        trace = [NewWorker 0, PendingSet (test_uuid 0) 0,
                 PostMessage 0 (make_request CallList (test_uuid 0))]\<rparr>,
      drawn = 1, taken = {}, replies = [], delivered = {}, fired = {}, store = empty_backend\<rparr>"
    by (simp add: system_defs bridge_defs)
  have a: "length (workers (page ?S0)) = 1" and a': "0 < length (workers (page ?S0))"
    and b: "\<not> script_loads test_host 0"
    and c: "fired ?S0 = {}" and c': "0 \<notin> fired ?S0" and d: "script_loads test_host 1"
    and p0: "promises (page ?S0) = [Pending]"
    unfolding S0 by (simp_all add: test_host_def)
  have e: "fst (opfsInit (worker_env test_host) ((store ?S0)\<lparr>outbox := []\<rparr>)) = Inr ()"
    unfolding S0 by (simp add: test_host_def opfsInit_cases test_env_def)
  have sn: "length (sent (trace (page ?S1))) = 1" and rp: "length (replies ?S1) = 0"
    unfolding S0 by (simp_all add: load_fails_def test_host_def worker_onerror_def emit_def)
  note T = crash_recovery [where h = test_host and st = empty_backend
        and before = "[UserCall CallList]" and w = 0 and m = "js ''x''" and k = CallInit,
        OF a' b c']
  have f: "worker (page ?S1) = None" by (rule T [THEN conjunct2, THEN conjunct1])
  have "promises (page (sys_run test_host ?S2 [WorkerTakes (length (sent (trace (page ?S1)))),
          PageGets (length (replies ?S1))])) = promises (page ?S0) @ [Fulfilled Undefined]"
    using T [THEN conjunct2, THEN conjunct2, THEN conjunct2, THEN conjunct2, THEN conjunct2,
        THEN conjunct2, THEN conjunct2, THEN conjunct2, THEN conjunct2, THEN conjunct2,
        THEN conjunct2] d e
    unfolding a by (simp only: simp_thms)
  then have g: "promises (page (sys_run test_host ?S2 [WorkerTakes 1, PageGets 0]))
      = [Pending, Fulfilled Undefined]"
    unfolding sn rp p0 by simp
  have r1: "sys_run test_host (init_system empty_backend)
         [UserCall CallList, LoadFails 0 (js ''x'')] = ?S1"
    and r2: "sys_run test_host (init_system empty_backend)
         [UserCall CallList, LoadFails 0 (js ''x''), UserCall CallInit,
          WorkerTakes 1, PageGets 0] = sys_run test_host ?S2 [WorkerTakes 1, PageGets 0]"
    by (simp_all add: sys_run_def del: sys_step.simps)
  show ?thesis
    unfolding r1 r2 by (rule conjI [OF a conjI [OF b conjI [OF c conjI [OF f conjI [OF d g]]]]])
qed

end
